theory Spec2Isabelle
  imports Main "HOL-Library.Word"
begin

unbundle bit_operations_syntax

section \<open>The Mini-UART driver \<^verbatim>\<open>rpi_uart.c\<close> as HOL functions\<close>

text \<open>
  The driver talks to two memory-mapped register banks through \<^verbatim>\<open>readl\<close> and
  \<^verbatim>\<open>writel\<close>. The model keeps the order of every access in a trace. What a read
  returns is decided by the device, not by the driver: it is taken from an oracle
  \<open>dev\<close>, where \<open>dev n r\<close> is the word the device answers when the \<open>n\<close>-th read of the
  run (counted from 0) is a read of register \<open>r\<close>. Theorems hold for every oracle, hence
  for every behaviour of the hardware.
\<close>

type_synonym u8 = "8 word"
type_synonym u16 = "16 word"
type_synonym u32 = "32 word"

text \<open>
  The registers the source touches: two words of the GPIO bank (\<^verbatim>\<open>gpio + GPFSEL1\<close>,
  \<^verbatim>\<open>gpio + GPPUPPDN0\<close>) and the fields of \<^verbatim>\<open>struct uart_regs\<close> it names.
\<close>

datatype reg =
  GPFSEL1 | GPPUPPDN0
  | ENABLES | MU_IO | MU_IER | MU_IIR | MU_LCR | MU_MCR | MU_LSR | MU_CNTL | MU_BAUD

datatype event =
  Readl reg u32      \<comment> \<open>\<^verbatim>\<open>readl(r)\<close> and the word it returned\<close>
  | Writel u32 reg   \<comment> \<open>\<^verbatim>\<open>writel(v, r)\<close>\<close>
  | CpuRelax         \<comment> \<open>one \<^verbatim>\<open>cpu_relax()\<close>\<close>
  | Udelay nat       \<comment> \<open>\<^verbatim>\<open>udelay(n)\<close>\<close>
  | Wmb              \<comment> \<open>\<^verbatim>\<open>wmb()\<close>\<close>

datatype region = GPIO_BASE | AUX_BASE

record state =
  trace :: "event list"      \<comment> \<open>device accesses, delays and barriers so far, oldest first\<close>
  nreads :: nat              \<comment> \<open>number of \<^verbatim>\<open>readl\<close> calls so far\<close>
  klog :: "string list"      \<comment> \<open>kernel log lines (format strings), oldest first\<close>
  mapped :: "region set"     \<comment> \<open>MMIO regions the driver holds a mapping of\<close>
  nodes :: "string set"      \<comment> \<open>procfs entries the driver has created\<close>

type_synonym dev = "nat \<Rightarrow> reg \<Rightarrow> u32"

definition readl :: "dev \<Rightarrow> reg \<Rightarrow> state \<Rightarrow> u32 \<times> state" where
  "readl dev r s =
     (dev (nreads s) r,
      s\<lparr>trace := trace s @ [Readl r (dev (nreads s) r)], nreads := Suc (nreads s)\<rparr>)"

definition writel :: "u32 \<Rightarrow> reg \<Rightarrow> state \<Rightarrow> state" where
  "writel v r s = s\<lparr>trace := trace s @ [Writel v r]\<rparr>"

definition cpu_relax :: "state \<Rightarrow> state" where
  "cpu_relax s = s\<lparr>trace := trace s @ [CpuRelax]\<rparr>"

definition udelay :: "nat \<Rightarrow> state \<Rightarrow> state" where
  "udelay n s = s\<lparr>trace := trace s @ [Udelay n]\<rparr>"

definition wmb :: "state \<Rightarrow> state" where
  "wmb s = s\<lparr>trace := trace s @ [Wmb]\<rparr>"

definition pr_info :: "string \<Rightarrow> state \<Rightarrow> state" where
  "pr_info msg s = s\<lparr>klog := klog s @ [msg]\<rparr>"

definition pr_err :: "string \<Rightarrow> state \<Rightarrow> state" where
  "pr_err msg s = s\<lparr>klog := klog s @ [msg]\<rparr>"

subsection \<open>Constants of \<^verbatim>\<open>uart.h\<close>\<close>

text \<open>
  Modelled from the spec: the header \<^verbatim>\<open>uart.h\<close> is not part of the sources at hand, so
  the three macro values it gives are taken from the register map of the specification:
  value 2 of a function-select field selects alternate function 5, and in a pull field
  0 is no pull and 1 is pull-up.
\<close>

definition GPIO_FSEL_ALT5 :: u32 where "GPIO_FSEL_ALT5 = 2"
definition GPIO_PUPDN_NONE :: u32 where "GPIO_PUPDN_NONE = 0"
definition GPIO_PUPDN_UP :: u32 where "GPIO_PUPDN_UP = 1"

definition EFAULT :: int where "EFAULT = 14"
definition ENOMEM :: int where "ENOMEM = 12"

subsection \<open>Bring-up\<close>

text \<open>\<^verbatim>\<open>while (count--) cpu_relax();\<close> for a count that is not negative.\<close>

primrec delay_cycles :: "nat \<Rightarrow> state \<Rightarrow> state" where
  "delay_cycles 0 s = s"
| "delay_cycles (Suc count) s = delay_cycles count (cpu_relax s)"

text \<open>
  \<^verbatim>\<open>u16 baud_val = (500000000/(9600*8))-1;\<close> The right-hand side is \<^verbatim>\<open>int\<close> arithmetic
  on positive values, where C's truncating division is \<open>div\<close>; the assignment keeps the
  low 16 bits.
\<close>

definition baud_val :: u16 where
  "baud_val = word_of_int ((500000000 div (9600 * 8)) - 1)"

text \<open>
  \<^verbatim>\<open>uart_init_os\<close>. The masks are \<^verbatim>\<open>int\<close> expressions in the source; \<^verbatim>\<open>val &= ~(...)\<close> and
  \<^verbatim>\<open>val |= ...\<close> work on their 32-bit patterns, which is what \<open>push_bit\<close>, \<open>OR\<close> and
  \<open>NOT\<close> give on \<open>u32\<close> (also for \<^verbatim>\<open>0x3 << 30\<close>, whose pattern has the sign bit set).
\<close>

definition uart_init_os :: "dev \<Rightarrow> state \<Rightarrow> state" where
  "uart_init_os dev s0 =
     (let (val, s1) = readl dev GPFSEL1 s0;
          val = val AND NOT (push_bit 12 7 OR push_bit 15 7);
          val = val OR (push_bit 12 GPIO_FSEL_ALT5 OR push_bit 15 GPIO_FSEL_ALT5);
          s2 = writel val GPFSEL1 s1;
          (val, s3) = readl dev GPPUPPDN0 s2;
          val = val AND NOT (push_bit 28 3 OR push_bit 30 3);
          val = val OR (push_bit 28 GPIO_PUPDN_NONE OR push_bit 30 GPIO_PUPDN_UP);
          s4 = writel val GPPUPPDN0 s3;
          s5 = delay_cycles 150 s4;
          (val, s6) = readl dev ENABLES s5;
          s7 = writel (val OR 1) ENABLES s6;
          s8 = writel 0 MU_CNTL s7;
          s9 = writel 0 MU_IER s8;
          s10 = writel 2 MU_IIR s9;
          s11 = writel 4 MU_IIR s10;
          s12 = writel 3 MU_LCR s11;
          s13 = writel 0 MU_MCR s12;
          s14 = writel (ucast baud_val) MU_BAUD s13;
          s15 = writel 3 MU_CNTL s14;
          s16 = wmb s15
      in pr_info ''Mini UART initialized successfully'' s16)"

text \<open>The words written to one register, in the order of the writes.\<close>

fun writes_to :: "reg \<Rightarrow> event list \<Rightarrow> u32 list" where
  "writes_to r [] = []"
| "writes_to r (Writel v r' # es) = (if r' = r then v # writes_to r es else writes_to r es)"
| "writes_to r (_ # es) = writes_to r es"

subsection \<open>Byte I/O\<close>

text \<open>
  A function of the driver either returns, or spins for ever on the device (the value
  \<open>None\<close>). A function that walks a C array can in addition leave the array; the model
  stops there with \<open>Overrun\<close> instead of giving the access a meaning.
\<close>

datatype 'a res = Ok 'a | Overrun

text \<open>
  The loop \<^verbatim>\<open>while (!(readl(&uart->MU_LSR) & (1 << 5))) { }\<close> of \<^verbatim>\<open>uart_send_char\<close>. It has
  no bound: it returns only when some read of the status register shows bit 5.
\<close>

partial_function (option) tx_spin :: "dev \<Rightarrow> state \<Rightarrow> state option" where
  "tx_spin dev s =
     (case readl dev MU_LSR s of
        (v, s1) \<Rightarrow> if v AND push_bit 5 1 = 0 then tx_spin dev s1 else Some s1)"

text \<open>\<^verbatim>\<open>'\n'\<close> is \<open>0x0A\<close> and \<^verbatim>\<open>'\r'\<close> is \<open>0x0D\<close>.\<close>

function uart_send_char :: "dev \<Rightarrow> u8 \<Rightarrow> state \<Rightarrow> state option" where
  "uart_send_char dev c s =
     (case (if c = 0x0A then uart_send_char dev 0x0D s else Some s) of
        None \<Rightarrow> None
      | Some s1 \<Rightarrow>
          (case tx_spin dev s1 of
             None \<Rightarrow> None
           | Some s2 \<Rightarrow> Some (writel (ucast (c AND 0xFF)) MU_IO s2)))"
  by pat_completeness auto
termination
  by (relation "measure (\<lambda>(dev, c, s). if c = 0x0A then 1 else 0)") auto

declare uart_send_char.simps [simp del]

text \<open>
  \<^verbatim>\<open>uart_send_string(s)\<close>: the argument is the array from \<^verbatim>\<open>s\<close> on. Reading beyond its
  last element is \<open>Overrun\<close>.
\<close>

fun uart_send_string :: "dev \<Rightarrow> u8 list \<Rightarrow> state \<Rightarrow> state res option" where
  "uart_send_string dev [] s = Some Overrun"
| "uart_send_string dev (c # cs) s =
     (if c = 0 then Some (Ok s)
      else
        (case (if c = 0x0A then uart_send_char dev 0x0D s else Some s) of
           None \<Rightarrow> None
         | Some s1 \<Rightarrow>
             (case uart_send_char dev c s1 of
                None \<Rightarrow> None
              | Some s2 \<Rightarrow> uart_send_string dev cs s2)))"

definition uart_data_available :: "dev \<Rightarrow> state \<Rightarrow> u32 \<times> state" where
  "uart_data_available dev s = (case readl dev MU_LSR s of (v, s1) \<Rightarrow> (v AND push_bit 0 1, s1))"

definition uart_receive_char :: "dev \<Rightarrow> state \<Rightarrow> u8 \<times> state" where
  "uart_receive_char dev s =
     (case uart_data_available dev s of
        (a, s1) \<Rightarrow>
          if a = 0 then (0, s1)
          else (case readl dev MU_IO s1 of (v, s2) \<Rightarrow> (ucast (v AND 0xFF), s2)))"

text \<open>What the line and the receive FIFO saw: the bytes written to and read from \<^verbatim>\<open>MU_IO\<close>.\<close>

fun tx_line :: "event list \<Rightarrow> u8 list" where
  "tx_line [] = []"
| "tx_line (Writel v r # es) = (if r = MU_IO then ucast v # tx_line es else tx_line es)"
| "tx_line (_ # es) = tx_line es"

fun rx_line :: "event list \<Rightarrow> u8 list" where
  "rx_line [] = []"
| "rx_line (Readl r v # es) = (if r = MU_IO then ucast v # rx_line es else rx_line es)"
| "rx_line (_ # es) = rx_line es"

subsection \<open>User memory\<close>

text \<open>
  \<^verbatim>\<open>copy_from_user(dst, src, n)\<close> and \<^verbatim>\<open>copy_to_user(dst, src, n)\<close> belong to the kernel.
  User memory is modelled by its accessible extent: a source is the list of bytes that
  can be read from the user's pointer on, a destination is the number of bytes that can
  be written there. Both functions copy the part of the \<open>n\<close> bytes that is accessible and
  return the number of bytes they could not copy, which is 0 when the copy succeeds; a
  copy of no bytes always succeeds. \<^verbatim>\<open>copy_from_user\<close> fills what it could not read with
  zeros. The second component of the result is the destination after the call: for
  \<^verbatim>\<open>copy_from_user\<close> the kernel array, for \<^verbatim>\<open>copy_to_user\<close> the bytes that now stand in
  the caller's buffer.
\<close>

definition copy_from_user :: "u8 list \<Rightarrow> u8 list \<Rightarrow> nat \<Rightarrow> nat \<times> u8 list" where
  "copy_from_user dst usrc n =
     (n - min n (length usrc),
      take (min n (length usrc)) usrc @ replicate (n - min n (length usrc)) 0 @ drop n dst)"

definition copy_to_user :: "nat \<Rightarrow> u8 list \<Rightarrow> nat \<Rightarrow> nat \<times> u8 list" where
  "copy_to_user udst src n = (n - min n udst, take (min n udst) src)"

text \<open>
  \<^verbatim>\<open>char kbuf[256]\<close> is not initialised: it starts with whatever the stack holds, here an
  arbitrary \<open>stack :: nat \<Rightarrow> u8\<close>.
\<close>

definition KBUF_SIZE :: nat where "KBUF_SIZE = 256"

definition kbuf_init :: "(nat \<Rightarrow> u8) \<Rightarrow> u8 list" where
  "kbuf_init stack = map stack [0..<KBUF_SIZE]"

subsection \<open>The read handler\<close>

text \<open>
  The first-byte wait of \<^verbatim>\<open>uart_proc_read\<close>:
  \<^verbatim>\<open>while (!uart_data_available() && timeout-- > 0) udelay(1000);\<close>
  The function returns the value \<^verbatim>\<open>timeout\<close> has when the loop is left. The decrement
  also happens on the test that fails.
\<close>

function first_byte_wait :: "dev \<Rightarrow> int \<Rightarrow> state \<Rightarrow> int \<times> state" where
  "first_byte_wait dev timeout s =
     (case uart_data_available dev s of
        (a, s1) \<Rightarrow>
          if a = 0 then
            (if timeout > 0 then first_byte_wait dev (timeout - 1) (udelay 1000 s1)
             else (timeout - 1, s1))
          else (timeout, s1))"
  by pat_completeness auto
termination
  by (relation "measure (\<lambda>(dev, timeout, s). nat timeout)") auto

declare first_byte_wait.simps [simp del]

definition MAX_CONSECUTIVE_NO_DATA :: nat where "MAX_CONSECUTIVE_NO_DATA = 300"

text \<open>
  The inner loop
  \<^verbatim>\<open>while (uart_data_available() && i < (sizeof(kbuf) - 1) && i < count)\<close>.
  The counters \<^verbatim>\<open>i\<close> and \<^verbatim>\<open>consecutive_no_data\<close> are \<^verbatim>\<open>int\<close> in the source; they start
  at 0, are only incremented and stay below 256 and 301, so they are \<open>nat\<close> here.
  The store \<^verbatim>\<open>kbuf[i++] = c\<close> is checked against the array.
\<close>

partial_function (option) rx_fifo_loop ::
  "dev \<Rightarrow> nat \<Rightarrow> u8 list \<Rightarrow> nat \<Rightarrow> nat \<Rightarrow> state \<Rightarrow> (u8 list \<times> nat \<times> nat \<times> state) res option"
where
  "rx_fifo_loop dev count kbuf i consecutive_no_data s =
     (case uart_data_available dev s of
        (a, s1) \<Rightarrow>
          if a \<noteq> 0 \<and> i < KBUF_SIZE - 1 \<and> i < count then
            (case uart_receive_char dev s1 of
               (c, s2) \<Rightarrow>
                 if c \<noteq> 0 then
                   (if i < length kbuf then rx_fifo_loop dev count (kbuf[i := c]) (i + 1) 0 s2
                    else Some Overrun)
                 else rx_fifo_loop dev count kbuf i consecutive_no_data s2)
          else Some (Ok (kbuf, i, consecutive_no_data, s1)))"

text \<open>
  The \<^verbatim>\<open>if (i > 0 && !uart_data_available()) ... else if (i == 0 && !uart_data_available())\<close>
  after the inner loop. The first component of the result tells whether \<^verbatim>\<open>break\<close> was
  reached.
\<close>

definition rx_idle_check :: "dev \<Rightarrow> nat \<Rightarrow> nat \<Rightarrow> state \<Rightarrow> bool \<times> nat \<times> state" where
  "rx_idle_check dev i consecutive_no_data s =
     (if i > 0 then
        (case uart_data_available dev s of
           (a, s1) \<Rightarrow>
             if a = 0 then
               (let s2 = udelay 1000 s1; n = consecutive_no_data + 1
                in (n \<ge> MAX_CONSECUTIVE_NO_DATA, n, s2))
             else (False, consecutive_no_data, s1))
      else
        (case uart_data_available dev s of
           (a, s1) \<Rightarrow>
             if a = 0 then
               (let s2 = udelay 1000 s1; n = consecutive_no_data + 1
                in (n \<ge> MAX_CONSECUTIVE_NO_DATA, n, s2))
             else (False, consecutive_no_data, s1)))"

text \<open>The outer loop \<^verbatim>\<open>while (i < (sizeof(kbuf) - 1) && i < count)\<close>.\<close>

partial_function (option) rx_drain ::
  "dev \<Rightarrow> nat \<Rightarrow> u8 list \<Rightarrow> nat \<Rightarrow> nat \<Rightarrow> state \<Rightarrow> (u8 list \<times> nat \<times> state) res option"
where
  "rx_drain dev count kbuf i consecutive_no_data s =
     (if i < KBUF_SIZE - 1 \<and> i < count then
        (case rx_fifo_loop dev count kbuf i consecutive_no_data s of
           None \<Rightarrow> None
         | Some Overrun \<Rightarrow> Some Overrun
         | Some (Ok (kbuf1, i1, n1, s1)) \<Rightarrow>
             (case rx_idle_check dev i1 n1 s1 of
                (brk, n2, s2) \<Rightarrow>
                  if brk then Some (Ok (kbuf1, i1, s2))
                  else rx_drain dev count kbuf1 i1 n2 s2))
      else Some (Ok (kbuf, i, s)))"

text \<open>
  The end of \<^verbatim>\<open>uart_proc_read\<close>, from \<^verbatim>\<open>if (i == 0)\<close> on. The result is the returned
  \<^verbatim>\<open>ssize_t\<close>, the bytes that reached the caller's buffer, the cursor \<^verbatim>\<open>*ppos\<close> and
  the state. The store \<^verbatim>\<open>kbuf[i] = '\0'\<close> is checked against the array.
\<close>

definition rx_finish ::
  "nat \<Rightarrow> u8 list \<Rightarrow> nat \<Rightarrow> int \<Rightarrow> state \<Rightarrow> (int \<times> u8 list \<times> int \<times> state) res" where
  "rx_finish ubuf kbuf i ppos s =
     (if i = 0 then Ok (0, [], ppos, s)
      else if \<not> i < length kbuf then Overrun
      else
        (let kbuf1 = kbuf[i := 0]
         in case copy_to_user ubuf kbuf1 i of
              (left, out) \<Rightarrow>
                if left \<noteq> 0 then Ok (- EFAULT, out, ppos, s)
                else Ok (int i, out, ppos + int i, pr_info ''UART RX: received %d bytes: %s'' s)))"

text \<open>The part of \<^verbatim>\<open>uart_proc_read\<close> after the first-byte wait.\<close>

definition rx_collect ::
  "dev \<Rightarrow> (nat \<Rightarrow> u8) \<Rightarrow> nat \<Rightarrow> 64 word \<Rightarrow> int \<Rightarrow> state \<Rightarrow> (int \<times> u8 list \<times> int \<times> state) res option"
where
  "rx_collect dev stack ubuf count ppos s =
     (case rx_drain dev (unat count) (kbuf_init stack) 0 0 s of
        None \<Rightarrow> None
      | Some Overrun \<Rightarrow> Some Overrun
      | Some (Ok (kbuf, i, s1)) \<Rightarrow> Some (rx_finish ubuf kbuf i ppos s1))"

text \<open>
  \<^verbatim>\<open>uart_proc_read(file, buf, count, ppos)\<close>. \<open>ubuf\<close> is the writable extent at \<^verbatim>\<open>buf\<close>,
  \<open>count\<close> the \<^verbatim>\<open>size_t\<close> the caller asks for, \<open>ppos\<close> the value of \<^verbatim>\<open>*ppos\<close> on entry.
\<close>

definition uart_proc_read ::
  "dev \<Rightarrow> (nat \<Rightarrow> u8) \<Rightarrow> nat \<Rightarrow> 64 word \<Rightarrow> int \<Rightarrow> state \<Rightarrow> (int \<times> u8 list \<times> int \<times> state) res option"
where
  "uart_proc_read dev stack ubuf count ppos s =
     (if ppos > 0 then Some (Ok (0, [], ppos, s))
      else
        (case first_byte_wait dev 1000 s of
           (timeout, s1) \<Rightarrow>
             if timeout \<le> 0 then Some (Ok (0, [], ppos, s1))
             else rx_collect dev stack ubuf count ppos s1))"

subsection \<open>The write handler\<close>

text \<open>
  \<^verbatim>\<open>uart_proc_write(file, buf, count, ppos)\<close>. \<open>ubuf\<close> is the readable memory at \<^verbatim>\<open>buf\<close>.
  The result is the returned \<^verbatim>\<open>ssize_t\<close> and the state; \<^verbatim>\<open>return count\<close> converts the
  \<^verbatim>\<open>size_t\<close> to the signed type, which is \<open>sint\<close>.
\<close>

definition uart_proc_write ::
  "dev \<Rightarrow> (nat \<Rightarrow> u8) \<Rightarrow> u8 list \<Rightarrow> 64 word \<Rightarrow> state \<Rightarrow> (int \<times> state) res option" where
  "uart_proc_write dev stack ubuf count s =
     (let kbuf = kbuf_init stack;
          len = min (unat count) (KBUF_SIZE - 1)
      in if \<not> len \<le> length kbuf then Some Overrun
         else
           (case copy_from_user kbuf ubuf len of
              (left, kbuf1) \<Rightarrow>
                if left \<noteq> 0 then Some (Ok (- EFAULT, s))
                else if \<not> len < length kbuf1 then Some Overrun
                else
                  (case uart_send_string dev (kbuf1[len := 0]) s of
                     None \<Rightarrow> None
                   | Some Overrun \<Rightarrow> Some Overrun
                   | Some (Ok s1) \<Rightarrow>
                       Some (Ok (sint count, pr_info ''UART TX: sent %zu bytes'' s1)))))"

subsection \<open>Module load\<close>

text \<open>
  Modelled from the spec: the names \<^verbatim>\<open>PROC_UART_TX\<close> and \<^verbatim>\<open>PROC_UART_RX\<close> come from
  \<^verbatim>\<open>uart.h\<close>; the specification names the two entries \<^verbatim>\<open>uart_tx\<close> and \<^verbatim>\<open>uart_rx\<close>.
\<close>

definition PROC_UART_TX :: string where "PROC_UART_TX = ''uart_tx''"
definition PROC_UART_RX :: string where "PROC_UART_RX = ''uart_rx''"

definition ioremap :: "region \<Rightarrow> state \<Rightarrow> state" where
  "ioremap r s = s\<lparr>mapped := insert r (mapped s)\<rparr>"

definition iounmap :: "region \<Rightarrow> state \<Rightarrow> state" where
  "iounmap r s = s\<lparr>mapped := mapped s - {r}\<rparr>"

definition proc_create :: "string \<Rightarrow> state \<Rightarrow> state" where
  "proc_create name s = s\<lparr>nodes := insert name (nodes s)\<rparr>"

definition proc_remove :: "string \<Rightarrow> state \<Rightarrow> state" where
  "proc_remove name s = s\<lparr>nodes := nodes s - {name}\<rparr>"

text \<open>A string literal of the source as the array the compiler lays out: its bytes and a 0.\<close>

definition c_string :: "string \<Rightarrow> u8 list" where
  "c_string str = map (\<lambda>c. word_of_nat (of_char c)) str @ [0]"

text \<open>
  \<^verbatim>\<open>uart_driver_init\<close>. Whether the kernel grants the two mappings and the two procfs
  entries is its decision: the four booleans say, in the order of the calls, whether
  \<^verbatim>\<open>ioremap(GPIO_BASE, ..)\<close>, \<^verbatim>\<open>ioremap(AUX_BASE, ..)\<close>, \<^verbatim>\<open>proc_create(PROC_UART_TX, ..)\<close> and
  \<^verbatim>\<open>proc_create(PROC_UART_RX, ..)\<close> return a pointer that is not \<^verbatim>\<open>NULL\<close>.
\<close>

definition uart_driver_init ::
  "dev \<Rightarrow> bool \<Rightarrow> bool \<Rightarrow> bool \<Rightarrow> bool \<Rightarrow> state \<Rightarrow> (int \<times> state) res option" where
  "uart_driver_init dev gpio_ok uart_ok tx_ok rx_ok s0 =
     (if \<not> gpio_ok then Some (Ok (- ENOMEM, pr_err ''Failed to map GPIO registers'' s0))
      else
        (let s1 = ioremap GPIO_BASE s0
         in if \<not> uart_ok then
              Some (Ok (- ENOMEM, iounmap GPIO_BASE (pr_err ''Failed to map UART registers'' s1)))
            else
              (let s2 = ioremap AUX_BASE s1;
                   s3 = uart_init_os dev s2
               in if \<not> tx_ok then
                    Some (Ok (- ENOMEM,
                      iounmap GPIO_BASE (iounmap AUX_BASE (pr_err ''Failed to create /proc/%s'' s3))))
                  else
                    (let s4 = proc_create PROC_UART_TX s3
                     in if \<not> rx_ok then
                          Some (Ok (- ENOMEM,
                            iounmap GPIO_BASE (iounmap AUX_BASE
                              (proc_remove PROC_UART_TX (pr_err ''Failed to create /proc/%s'' s4)))))
                        else
                          (let s5 = proc_create PROC_UART_RX s4
                           in case uart_send_string dev
                                     (c_string (''Mini UART driver loaded successfully!'' @ [CHR 0x0D, CHR 0x0A])) s5 of
                                None \<Rightarrow> None
                              | Some Overrun \<Rightarrow> Some Overrun
                              | Some (Ok s6) \<Rightarrow>
                                  Some (Ok (0,
                                    pr_info ''Read from /proc/%s to receive data''
                                      (pr_info ''Write to /proc/%s to send data''
                                        (pr_info ''UART driver loaded.'' s6)))))))))"

subsection \<open>Vocabulary of the properties\<close>

text \<open>The state of a run that has not touched anything yet.\<close>

definition s_init :: state where
  "s_init = \<lparr>trace = [], nreads = 0, klog = [], mapped = {}, nodes = {}\<rparr>"

text \<open>
  The transmitter is live when, from every point of the run on, some later read of the
  status register shows room in the transmit FIFO (bit 5). Only then does the spin loop
  of \<^verbatim>\<open>uart_send_char\<close> return.
\<close>

definition tx_ready :: "dev \<Rightarrow> bool" where
  "tx_ready dev = (\<forall>n. \<exists>m\<ge>n. dev m MU_LSR AND push_bit 5 1 \<noteq> 0)"

text \<open>
  The bytes one byte of a string becomes on the line when it goes through
  \<^verbatim>\<open>uart_send_string\<close>, as lemma \<open>uart_send_string_returns\<close> below establishes.
\<close>

definition on_wire :: "u8 \<Rightarrow> u8 list" where
  "on_wire c = (if c = 0x0A then [0x0D, 0x0D, 0x0A] else [c])"

text \<open>Vocabulary of the properties of the read handler.\<close>

fun is_write :: "event \<Rightarrow> bool" where
  "is_write (Writel v r) = True"
| "is_write _ = False"

text \<open>
  What every step of the read handler leaves alone: it writes to no register and touches
  neither mappings nor procfs entries; the count of reads can only grow.
\<close>

definition rx_step :: "state \<Rightarrow> state \<Rightarrow> bool" where
  "rx_step s s' \<longleftrightarrow>
     filter is_write (trace s') = filter is_write (trace s) \<and>
     mapped s' = mapped s \<and> nodes s' = nodes s \<and> nreads s \<le> nreads s'"

text \<open>
  The invariant of the drain loops: the array has its 256 cells, \<open>i\<close> is at most 255 and
  at most the caller's count, and the first \<open>i\<close> cells hold, in order, the bytes other
  than 0 that were read from \<^verbatim>\<open>MU_IO\<close> since the trace showed \<open>base\<close>.
\<close>

definition rx_inv :: "nat \<Rightarrow> u8 list \<Rightarrow> u8 list \<Rightarrow> nat \<Rightarrow> state \<Rightarrow> bool" where
  "rx_inv count base kbuf i s \<longleftrightarrow>
     length kbuf = KBUF_SIZE \<and> i \<le> KBUF_SIZE - 1 \<and> i \<le> count \<and>
     filter (\<lambda>c. c \<noteq> 0) (rx_line (trace s)) = base @ take i kbuf"

text \<open>
  A line that is silent while the first 1001 reads of a run are made, and from then on
  holds the byte \<^verbatim>\<open>A\<close>.
\<close>

definition late_byte :: dev where
  "late_byte = (\<lambda>n r. if r = MU_LSR then (if n < 1001 then 0 else 1) else 0x41)"

section \<open>Properties\<close>

subsection \<open>Bring-up\<close>

lemma delay_cycles_eq: "delay_cycles n s = s\<lparr>trace := trace s @ replicate n CpuRelax\<rparr>"
  by (induction n arbitrary: s) (simp_all add: cpu_relax_def replicate_app_Cons_same)

lemma writes_to_append: "writes_to r (xs @ ys) = writes_to r xs @ writes_to r ys"
  by (induction r xs rule: writes_to.induct) simp_all

lemma writes_to_replicate: "writes_to r (replicate n CpuRelax) = []"
  by (induction n) simp_all

lemma uart_init_os_trace:
  "trace (uart_init_os dev s) = trace s @
     [Readl GPFSEL1 (dev (nreads s) GPFSEL1),
      Writel ((dev (nreads s) GPFSEL1 AND NOT 0x3F000) OR 0x12000) GPFSEL1,
      Readl GPPUPPDN0 (dev (nreads s + 1) GPPUPPDN0),
      Writel ((dev (nreads s + 1) GPPUPPDN0 AND NOT 0xF0000000) OR 0x40000000) GPPUPPDN0]
     @ replicate 150 CpuRelax @
     [Readl ENABLES (dev (nreads s + 2) ENABLES),
      Writel (dev (nreads s + 2) ENABLES OR 1) ENABLES,
      Writel 0 MU_CNTL, Writel 0 MU_IER,
      Writel 2 MU_IIR, Writel 4 MU_IIR, Writel 3 MU_LCR, Writel 0 MU_MCR,
      Writel 6509 MU_BAUD, Writel 3 MU_CNTL, Wmb]"
  by (simp add: uart_init_os_def readl_def writel_def wmb_def pr_info_def delay_cycles_eq
      baud_val_def GPIO_FSEL_ALT5_def GPIO_PUPDN_NONE_def GPIO_PUPDN_UP_def Let_def)

lemma uart_init_os_frame:
  "mapped (uart_init_os dev s) = mapped s" "nodes (uart_init_os dev s) = nodes s"
  by (simp_all add: uart_init_os_def readl_def writel_def wmb_def pr_info_def delay_cycles_eq
      Let_def)

lemma keep_rest:
  fixes v m k :: u32
  assumes "k AND NOT m = 0"
  shows "((v AND NOT m) OR k) AND NOT m = v AND NOT m"
  by (simp add: bit.conj_disj_distrib2 assms and.assoc)

lemma fsel_field_14: "take_bit 3 (drop_bit 12 (((v::u32) AND NOT 0x3F000) OR 0x12000)) = 2"
  by simp

lemma fsel_field_15: "take_bit 3 (drop_bit 15 (((v::u32) AND NOT 0x3F000) OR 0x12000)) = 2"
  by simp

lemma fsel_rest:
  "(((v::u32) AND NOT 0x3F000) OR 0x12000) AND NOT 0x3F000 = v AND NOT 0x3F000"
  by (rule keep_rest) simp

lemma pud_field_14:
  "take_bit 2 (drop_bit 28 (((v::u32) AND NOT 0xF0000000) OR 0x40000000)) = 0"
  by simp

lemma pud_field_15:
  "take_bit 2 (drop_bit 30 (((v::u32) AND NOT 0xF0000000) OR 0x40000000)) = 1"
  by simp

lemma pud_rest:
  "(((v::u32) AND NOT 0xF0000000) OR 0x40000000) AND NOT 0xF0000000 = v AND NOT 0xF0000000"
  by (rule keep_rest) simp

lemma uart_init_os_cntl:
  "writes_to MU_CNTL (trace (uart_init_os dev s)) = writes_to MU_CNTL (trace s) @ [0, 3]"
  by (simp add: uart_init_os_trace writes_to_append writes_to_replicate)

lemma uart_init_os_lcr:
  "writes_to MU_LCR (trace (uart_init_os dev s)) = writes_to MU_LCR (trace s) @ [3]"
  by (simp add: uart_init_os_trace writes_to_append writes_to_replicate)

lemma uart_init_os_baud:
  "writes_to MU_BAUD (trace (uart_init_os dev s)) = writes_to MU_BAUD (trace s) @ [6509]"
  by (simp add: uart_init_os_trace writes_to_append writes_to_replicate)

text \<open>
  Claim C2. \<^verbatim>\<open>uart_init_os\<close> adds to the trace exactly this sequence, in this order: a read
  and a write of GPFSEL1, a read and a write of GPPUPPDN0, 150 \<^verbatim>\<open>cpu_relax\<close>, a read of
  ENABLES and the write of the value read with bit 0 set, then the writes 0 to CNTL, 0 to
  IER, 2 and 4 to IIR, 3 to LCR, 0 to MCR, 6509 to BAUD, 3 to CNTL, and the write barrier.
  The word written to GPFSEL1 has the value 2 (alternate function 5) in the 3-bit fields at
  bits 12 and 15 and the bits read elsewhere; the word written to GPPUPPDN0 has 0 (no pull)
  in the 2-bit field at bit 28 (the TX pin), 1 (pull-up) in the field at bit 30 (the RX
  pin) and the bits read elsewhere. The two GPIO writes come before every write to a UART
  register, and the last words written to CNTL and to LCR are 3.
\<close>

theorem uart_init_os_sequence:
  "trace (uart_init_os dev s) = trace s @
     [Readl GPFSEL1 (dev (nreads s) GPFSEL1),
      Writel ((dev (nreads s) GPFSEL1 AND NOT 0x3F000) OR 0x12000) GPFSEL1,
      Readl GPPUPPDN0 (dev (nreads s + 1) GPPUPPDN0),
      Writel ((dev (nreads s + 1) GPPUPPDN0 AND NOT 0xF0000000) OR 0x40000000) GPPUPPDN0]
     @ replicate 150 CpuRelax @
     [Readl ENABLES (dev (nreads s + 2) ENABLES),
      Writel (dev (nreads s + 2) ENABLES OR 1) ENABLES,
      Writel 0 MU_CNTL, Writel 0 MU_IER,
      Writel 2 MU_IIR, Writel 4 MU_IIR, Writel 3 MU_LCR, Writel 0 MU_MCR,
      Writel 6509 MU_BAUD, Writel 3 MU_CNTL, Wmb]
   \<and> take_bit 3 (drop_bit 12 ((dev (nreads s) GPFSEL1 AND NOT 0x3F000) OR 0x12000)) = 2
   \<and> take_bit 3 (drop_bit 15 ((dev (nreads s) GPFSEL1 AND NOT 0x3F000) OR 0x12000)) = 2
   \<and> ((dev (nreads s) GPFSEL1 AND NOT 0x3F000) OR 0x12000) AND NOT 0x3F000
       = dev (nreads s) GPFSEL1 AND NOT 0x3F000
   \<and> take_bit 2 (drop_bit 28 ((dev (nreads s + 1) GPPUPPDN0 AND NOT 0xF0000000) OR 0x40000000)) = 0
   \<and> take_bit 2 (drop_bit 30 ((dev (nreads s + 1) GPPUPPDN0 AND NOT 0xF0000000) OR 0x40000000)) = 1
   \<and> ((dev (nreads s + 1) GPPUPPDN0 AND NOT 0xF0000000) OR 0x40000000) AND NOT 0xF0000000
       = dev (nreads s + 1) GPPUPPDN0 AND NOT 0xF0000000
   \<and> writes_to MU_CNTL (trace (uart_init_os dev s)) = writes_to MU_CNTL (trace s) @ [0, 3]
   \<and> writes_to MU_LCR (trace (uart_init_os dev s)) = writes_to MU_LCR (trace s) @ [3]"
  by (intro conjI uart_init_os_trace fsel_field_14 fsel_field_15 fsel_rest
      pud_field_14 pud_field_15 pud_rest uart_init_os_cntl uart_init_os_lcr)

text \<open>
  Claim C7. The divisor \<^verbatim>\<open>(500000000/(9600*8))-1\<close> is 6509 in integer arithmetic, it is below
  \<open>2 ^ 16\<close>, so the \<^verbatim>\<open>u16\<close> variable holds it unchanged, and 6509 is the one word that
  \<^verbatim>\<open>uart_init_os\<close> writes to the BAUD register.
\<close>

theorem baud_divisor:
  "(500000000 div (9600 * 8)) - 1 = (6509 :: int)
   \<and> (500000000 div 76800) - 1 = (6509 :: int)
   \<and> (6509 :: int) < 2 ^ 16
   \<and> baud_val = 6509
   \<and> writes_to MU_BAUD (trace (uart_init_os dev s)) = writes_to MU_BAUD (trace s) @ [6509]"
  by (simp add: baud_val_def uart_init_os_baud)

subsection \<open>Transmission\<close>

lemma and_ff: "(c :: u8) AND 0xFF = c"
proof -
  have "(0xFF :: u8) = - 1" by simp
  then show ?thesis by (simp only: word_bw_same bit.conj_one_right)
qed

lemma low_byte: "(ucast (ucast (c AND 0xFF :: u8) :: u32) :: u8) = c"
  by (rule bit_word_eqI) (simp add: and_ff bit_simps)

lemma tx_line_append: "tx_line (xs @ ys) = tx_line xs @ tx_line ys"
  by (induction xs rule: tx_line.induct) simp_all

text \<open>The spin loop returns as soon as one of the coming reads shows bit 5.\<close>

lemma tx_spin_returns_aux:
  "dev (nreads s + k) MU_LSR AND push_bit 5 1 \<noteq> 0 \<Longrightarrow>
   \<exists>s'. tx_spin dev s = Some s' \<and> tx_line (trace s') = tx_line (trace s)"
proof (induction k arbitrary: s)
  case 0
  then show ?case
    by (subst tx_spin.simps) (simp add: readl_def tx_line_append)
next
  case (Suc k)
  let ?s1 = "snd (readl dev MU_LSR s)"
  have n: "nreads ?s1 = Suc (nreads s)" by (simp add: readl_def)
  have t: "tx_line (trace ?s1) = tx_line (trace s)" by (simp add: readl_def tx_line_append)
  from Suc.prems have "dev (nreads ?s1 + k) MU_LSR AND push_bit 5 1 \<noteq> 0" by (simp add: n)
  from Suc.IH [OF this] obtain s' where
    s': "tx_spin dev ?s1 = Some s'" "tx_line (trace s') = tx_line (trace ?s1)"
    by blast
  show ?case
  proof (cases "dev (nreads s) MU_LSR AND push_bit 5 1 = 0")
    case True
    then have "tx_spin dev s = tx_spin dev ?s1"
      by (subst tx_spin.simps) (simp add: readl_def)
    with s' t show ?thesis by simp
  next
    case False
    then have "tx_spin dev s = Some ?s1"
      by (subst tx_spin.simps) (simp add: readl_def)
    with t show ?thesis by simp
  qed
qed

lemma tx_spin_returns:
  assumes "tx_ready dev"
  shows "\<exists>s'. tx_spin dev s = Some s' \<and> tx_line (trace s') = tx_line (trace s)"
proof -
  from assms obtain m where "m \<ge> nreads s" "dev m MU_LSR AND push_bit 5 1 \<noteq> 0"
    unfolding tx_ready_def by blast
  then have "dev (nreads s + (m - nreads s)) MU_LSR AND push_bit 5 1 \<noteq> 0" by simp
  then show ?thesis by (rule tx_spin_returns_aux)
qed

lemma uart_send_char_plain:
  assumes "tx_ready dev" "c \<noteq> 0x0A"
  shows "\<exists>s'. uart_send_char dev c s = Some s' \<and> tx_line (trace s') = tx_line (trace s) @ [c]"
proof -
  from tx_spin_returns [OF assms(1)] obtain s2 where
    "tx_spin dev s = Some s2" "tx_line (trace s2) = tx_line (trace s)" by blast
  with assms(2) show ?thesis
    by (simp add: uart_send_char.simps writel_def tx_line_append low_byte)
qed

lemma uart_send_char_returns:
  assumes "tx_ready dev"
  shows "\<exists>s'. uart_send_char dev c s = Some s' \<and>
     tx_line (trace s') = tx_line (trace s) @ (if c = 0x0A then [0x0D, 0x0A] else [c])"
proof (cases "c = 0x0A")
  case False
  with uart_send_char_plain [OF assms] show ?thesis by simp
next
  case True
  from uart_send_char_plain [OF assms, of "0x0D" s] obtain s1 where
    s1: "uart_send_char dev 0x0D s = Some s1" "tx_line (trace s1) = tx_line (trace s) @ [0x0D]"
    by auto
  from tx_spin_returns [OF assms] obtain s2 where
    s2: "tx_spin dev s1 = Some s2" "tx_line (trace s2) = tx_line (trace s1)" by blast
  have "uart_send_char dev 0x0A s = Some (writel (ucast (0x0A AND 0xFF :: u8)) MU_IO s2)"
    by (subst uart_send_char.simps) (simp add: s1 s2)
  with True s1 s2 show ?thesis
    by (simp add: writel_def tx_line_append low_byte)
qed

text \<open>
  What \<^verbatim>\<open>uart_send_string\<close> puts on the line: for each byte before the first 0, the byte
  itself, and for a line feed two carriage returns and the line feed. The caller sends one
  carriage return and \<^verbatim>\<open>uart_send_char\<close> sends another.
\<close>

lemma uart_send_string_returns:
  assumes "tx_ready dev" "0 \<in> set str"
  shows "\<exists>s'. uart_send_string dev str s = Some (Ok s') \<and>
     tx_line (trace s') = tx_line (trace s) @ concat (map on_wire (takeWhile (\<lambda>c. c \<noteq> 0) str))"
  using assms(2)
proof (induction str arbitrary: s)
  case Nil
  then show ?case by simp
next
  case (Cons c cs)
  show ?case
  proof (cases "c = 0")
    case True
    then show ?thesis by simp
  next
    case False
    with Cons.prems have in_cs: "0 \<in> set cs" by auto
    obtain s1 where s1: "(if c = 0x0A then uart_send_char dev 0x0D s else Some s) = Some s1"
      "tx_line (trace s1) = tx_line (trace s) @ (if c = 0x0A then [0x0D] else [])"
      using uart_send_char_plain [OF assms(1), of "0x0D" s] by (cases "c = 0x0A") auto
    from uart_send_char_returns [OF assms(1)] obtain s2 where
      s2: "uart_send_char dev c s1 = Some s2"
      "tx_line (trace s2) = tx_line (trace s1) @ (if c = 0x0A then [0x0D, 0x0A] else [c])"
      by blast
    from Cons.IH [OF in_cs] obtain s' where
      s': "uart_send_string dev cs s2 = Some (Ok s')"
      "tx_line (trace s') = tx_line (trace s2) @ concat (map on_wire (takeWhile (\<lambda>c. c \<noteq> 0) cs))"
      by blast
    have "uart_send_string dev (c # cs) s = Some (Ok s')"
      using False s1(1) s2(1) s'(1) by simp
    moreover have "on_wire c = (if c = 0x0A then [0x0D, 0x0D, 0x0A] else [c])"
      by (simp add: on_wire_def)
    ultimately show ?thesis
      using False s1(2) s2(2) s'(2) by simp
  qed
qed

text \<open>The bytes after the first 0 of the array play no part.\<close>

lemma uart_send_string_cut:
  "uart_send_string dev (xs @ 0 # rest) s =
   uart_send_string dev (takeWhile (\<lambda>c. c \<noteq> 0) xs @ [0]) s"
  by (induction xs arbitrary: s) (simp_all split: option.splits)

lemma kbuf_len: "length (kbuf_init stack) = 256"
  by (simp add: kbuf_init_def KBUF_SIZE_def)

lemma terminate_at:
  assumes "n \<le> length xs" "n < length k"
  shows "(take n xs @ drop n k)[n := z] = take n xs @ z # drop (Suc n) k"
proof -
  have l: "length (take n xs) = n" using assms by simp
  have "(take n xs @ drop n k)[n := z] = take n xs @ (drop n k)[0 := z]"
    by (simp only: list_update_append l) simp
  also have "(drop n k)[0 := z] = z # drop (Suc n) k"
    using assms(2) by (simp add: upd_conv_take_nth_drop)
  finally show ?thesis .
qed

text \<open>
  When the copy from user memory succeeds, the write handler is \<^verbatim>\<open>uart_send_string\<close> on
  the bytes of the payload that come before its first 0 and before position 255.
\<close>

lemma uart_proc_write_eq:
  assumes "min (unat count) 255 \<le> length ubuf"
  shows "uart_proc_write dev stack ubuf count s =
    (case uart_send_string dev
            (takeWhile (\<lambda>c. c \<noteq> 0) (take (min (unat count) 255) ubuf) @ [0]) s of
       None \<Rightarrow> None
     | Some Overrun \<Rightarrow> Some Overrun
     | Some (Ok s1) \<Rightarrow> Some (Ok (sint count, pr_info ''UART TX: sent %zu bytes'' s1)))"
proof -
  define len where "len = min (unat count) 255"
  have len: "len \<le> length ubuf" "len < 256" using assms by (simp_all add: len_def)
  have k: "(take len ubuf @ drop len (kbuf_init stack))[len := 0]
      = take len ubuf @ 0 # drop (Suc len) (kbuf_init stack)"
    using len by (intro terminate_at) (simp_all add: kbuf_len)
  have "uart_proc_write dev stack ubuf count s =
     (case uart_send_string dev ((take len ubuf @ drop len (kbuf_init stack))[len := 0]) s of
       None \<Rightarrow> None
     | Some Overrun \<Rightarrow> Some Overrun
     | Some (Ok s1) \<Rightarrow> Some (Ok (sint count, pr_info ''UART TX: sent %zu bytes'' s1)))"
    using len
    unfolding uart_proc_write_def copy_from_user_def KBUF_SIZE_def Let_def len_def [symmetric]
    by (simp add: kbuf_len len_def [symmetric])
  also have "uart_send_string dev ((take len ubuf @ drop len (kbuf_init stack))[len := 0]) s =
      uart_send_string dev (takeWhile (\<lambda>c. c \<noteq> 0) (take len ubuf) @ [0]) s"
    unfolding k by (rule uart_send_string_cut)
  finally show ?thesis unfolding len_def .
qed

text \<open>
  Claim C1, on the code. The three bytes \<^verbatim>\<open>a\<close>, line feed, \<^verbatim>\<open>b\<close> are written to the tx
  node while the transmit FIFO always has room. The handler returns 3 and the line sees
  five bytes: \<^verbatim>\<open>a\<close>, carriage return, carriage return, line feed, \<^verbatim>\<open>b\<close>.
\<close>

theorem newline_sends_two_carriage_returns:
  "map_option (map_res (\<lambda>(r, s). (r, tx_line (trace s))))
     (uart_proc_write (\<lambda>n r. 0x20) stack [0x61, 0x0A, 0x62] 3 s_init)
   = Some (Ok (3, [0x61, 0x0D, 0x0D, 0x0A, 0x62]))"
proof -
  have "min (unat (3 :: 64 word)) 255 \<le> length [0x61, 0x0A, 0x62 :: u8]" by simp
  from uart_proc_write_eq [OF this] show ?thesis
    by (simp add: s_init_def uart_send_char.simps tx_spin.simps readl_def writel_def pr_info_def)
qed

lemma sint_small:
  assumes "unat (count :: 64 word) < 2 ^ 63"
  shows "sint count = int (unat count)"
proof -
  have "int (unat count) < int (2 ^ 63)" using assms by (simp only: of_nat_less_iff)
  then have "int (unat count) < 2 ^ 63" by simp
  moreover have "- (2 ^ 63) \<le> int (unat count)"
    by (rule order_trans [of _ 0]) simp_all
  ultimately have "signed_take_bit 63 (int (unat count)) = int (unat count)"
    by (rule signed_take_bit_int_eq_self [rotated])
  moreover have "sint count = signed_take_bit 63 (int (unat count))"
    by (simp only: sint_uint uint_nat) simp
  ultimately show ?thesis by simp
qed

lemma uart_proc_write_returns:
  assumes "tx_ready dev" "min (unat count) 255 \<le> length ubuf"
  shows "\<exists>s'. uart_proc_write dev stack ubuf count s = Some (Ok (sint count, s')) \<and>
     tx_line (trace s') = tx_line (trace s) @
       concat (map on_wire (takeWhile (\<lambda>c. c \<noteq> 0) (take (min (unat count) 255) ubuf)))"
proof -
  let ?p = "takeWhile (\<lambda>c. c \<noteq> 0) (take (min (unat count) 255) ubuf)"
  have "0 \<in> set (?p @ [0])" by simp
  from uart_send_string_returns [OF assms(1) this, of s] obtain s1 where
    s1: "uart_send_string dev (?p @ [0]) s = Some (Ok s1)"
    "tx_line (trace s1) = tx_line (trace s) @ concat (map on_wire (takeWhile (\<lambda>c. c \<noteq> 0) (?p @ [0])))"
    by blast
  have "takeWhile (\<lambda>c. c \<noteq> 0) (?p @ [0]) = ?p"
    by (simp add: takeWhile_append)
  with s1 have "tx_line (trace (pr_info ''UART TX: sent %zu bytes'' s1)) = tx_line (trace s) @ concat (map on_wire ?p)"
    by (simp add: pr_info_def)
  moreover have "uart_proc_write dev stack ubuf count s = Some (Ok (sint count, pr_info ''UART TX: sent %zu bytes'' s1))"
    by (simp add: uart_proc_write_eq [OF assms(2)] s1(1))
  ultimately show ?thesis by blast
qed

text \<open>
  Claim C10. With a live transmitter and a readable payload, the write handler returns
  the requested count, and what it has put on the line is made of the bytes of the
  payload that come before its first 0 byte and before position 255, each as
  \<^verbatim>\<open>uart_send_string\<close> sends it. No byte at or after an embedded 0 reaches the
  peripheral. (The counts the kernel passes are below \<open>2 ^ 63\<close>, where the conversion of
  the \<^verbatim>\<open>size_t\<close> to the returned \<^verbatim>\<open>ssize_t\<close> keeps the value.)
\<close>

theorem write_stops_at_nul:
  assumes "tx_ready dev" "min (unat count) 255 \<le> length ubuf" "unat count < 2 ^ 63"
  shows "\<exists>s'. uart_proc_write dev stack ubuf count s = Some (Ok (int (unat count), s')) \<and>
     tx_line (trace s') = tx_line (trace s) @
       concat (map on_wire (takeWhile (\<lambda>c. c \<noteq> 0) (take (min (unat count) 255) ubuf)))"
  using uart_proc_write_returns [OF assms(1,2)] sint_small [OF assms(3)] by simp

lemma tx_ready_always: "tx_ready (\<lambda>n r. 0x20)"
  unfolding tx_ready_def by auto

text \<open>
  The payload \<^verbatim>\<open>h\<close>, 0, \<^verbatim>\<open>i\<close> written with count 3: the line sees \<^verbatim>\<open>h\<close> alone and the
  handler returns 3.
\<close>

theorem write_stops_at_nul_witness:
  "map_option (map_res (\<lambda>(r, s). (r, tx_line (trace s))))
     (uart_proc_write (\<lambda>n r. 0x20) (\<lambda>i. 0) [0x68, 0, 0x69] 3 s_init)
   = Some (Ok (3, [0x68]))"
proof -
  have "tx_ready (\<lambda>n r. 0x20)" by (rule tx_ready_always)
  moreover have "min (unat (3 :: 64 word)) 255 \<le> length [0x68, 0, 0x69 :: u8]" by simp
  moreover have "unat (3 :: 64 word) < 2 ^ 63" by simp
  ultimately obtain s' where
    "uart_proc_write (\<lambda>n r. 0x20) (\<lambda>i. 0) [0x68, 0, 0x69] 3 s_init = Some (Ok (int (unat (3 :: 64 word)), s'))"
    "tx_line (trace s') = tx_line (trace s_init) @
       concat (map on_wire (takeWhile (\<lambda>c. c \<noteq> 0) (take (min (unat (3 :: 64 word)) 255) [0x68, 0, 0x69])))"
    using write_stops_at_nul [of "\<lambda>n r. 0x20" 3 "[0x68, 0, 0x69]" "\<lambda>i. 0" s_init] by blast
  then show ?thesis by (simp add: s_init_def on_wire_def)
qed

lemma on_wire_replicate: "c \<noteq> 0x0A \<Longrightarrow> concat (map on_wire (replicate n c)) = replicate n c"
  by (induction n) (simp_all add: on_wire_def)

text \<open>
  Claim C6, on the code. A payload of 400 bytes without a 0, a line feed followed by 399
  times \<^verbatim>\<open>x\<close>, is written while the transmit FIFO always has room. The handler returns
  400 and only the first 255 bytes of the payload are sent, as the claim says; but the
  line feed among them arrives as carriage return, carriage return, line feed.
\<close>

theorem truncated_write_with_newline:
  "map_option (map_res (\<lambda>(r, s). (r, tx_line (trace s))))
     (uart_proc_write (\<lambda>n r. 0x20) stack (0x0A # replicate 399 0x78) 400 s_init)
   = Some (Ok (400, [0x0D, 0x0D, 0x0A] @ replicate 254 0x78))"
proof -
  have "min (unat (400 :: 64 word)) 255 \<le> length (0x0A # replicate 399 (0x78 :: u8))" by simp
  from uart_proc_write_returns [OF tx_ready_always this, of stack s_init] obtain s' where
    "uart_proc_write (\<lambda>n r. 0x20) stack (0x0A # replicate 399 0x78) 400 s_init = Some (Ok (sint (400 :: 64 word), s'))"
    "tx_line (trace s') = tx_line (trace s_init) @
       concat (map on_wire (takeWhile (\<lambda>c. c \<noteq> 0) (take (min (unat (400 :: 64 word)) 255) (0x0A # replicate 399 0x78))))"
    by blast
  moreover have "take (min (unat (400 :: 64 word)) 255) (0x0A # replicate 399 (0x78 :: u8)) = 0x0A # replicate 254 0x78"
    by simp
  moreover have "takeWhile (\<lambda>c. c \<noteq> 0) (0x0A # replicate 254 (0x78 :: u8)) = 0x0A # replicate 254 0x78"
    by (simp add: takeWhile_replicate)
  ultimately show ?thesis
    by (simp add: s_init_def on_wire_replicate) (simp add: on_wire_def)
qed


subsection \<open>Module load\<close>

lemma init_no_gpio:
  "uart_driver_init dev False uart_ok tx_ok rx_ok s =
     Some (Ok (- ENOMEM, pr_err ''Failed to map GPIO registers'' s))"
  by (simp add: uart_driver_init_def)

lemma init_no_uart:
  "\<exists>s'. uart_driver_init dev True False tx_ok rx_ok s = Some (Ok (- ENOMEM, s')) \<and>
     mapped s' = mapped s - {GPIO_BASE} \<and> nodes s' = nodes s"
  by (simp add: uart_driver_init_def Let_def ioremap_def iounmap_def pr_err_def)

lemma init_no_tx:
  "\<exists>s'. uart_driver_init dev True True False rx_ok s = Some (Ok (- ENOMEM, s')) \<and>
     mapped s' = mapped s - {GPIO_BASE, AUX_BASE} \<and> nodes s' = nodes s"
  by (auto simp add: uart_driver_init_def Let_def ioremap_def iounmap_def pr_err_def
      uart_init_os_frame)

lemma init_no_rx:
  "\<exists>s'. uart_driver_init dev True True True False s = Some (Ok (- ENOMEM, s')) \<and>
     mapped s' = mapped s - {GPIO_BASE, AUX_BASE} \<and> nodes s' = nodes s - {PROC_UART_TX}"
  by (auto simp add: uart_driver_init_def Let_def ioremap_def iounmap_def pr_err_def
      proc_create_def proc_remove_def uart_init_os_frame)

lemma init_all_ok:
  "uart_driver_init dev True True True True s = Some (Ok (r, s')) \<Longrightarrow> r = 0"
  by (auto simp add: uart_driver_init_def Let_def split: option.splits res.splits)

text \<open>
  Claim C8. Let the driver own no mapping and no procfs entry when \<^verbatim>\<open>uart_driver_init\<close> is
  entered. If the creation of the tx entry fails, the function returns \<^verbatim>\<open>-ENOMEM\<close> and
  both mappings are released. If the creation of the rx entry fails, it returns
  \<^verbatim>\<open>-ENOMEM\<close>, the tx entry is removed and both mappings are released. And whenever the
  function returns a value other than 0, that value is \<^verbatim>\<open>-ENOMEM\<close> and the driver owns
  neither a mapping nor an entry.
\<close>

theorem load_failure_rollback:
  assumes "mapped s = {}" "nodes s = {}"
  shows
   "(gpio_ok \<and> uart_ok \<and> \<not> tx_ok \<longrightarrow>
       (\<exists>s'. uart_driver_init dev gpio_ok uart_ok tx_ok rx_ok s = Some (Ok (- ENOMEM, s')) \<and>
             mapped s' = {} \<and> nodes s' = {}))
    \<and> (gpio_ok \<and> uart_ok \<and> tx_ok \<and> \<not> rx_ok \<longrightarrow>
       (\<exists>s'. uart_driver_init dev gpio_ok uart_ok tx_ok rx_ok s = Some (Ok (- ENOMEM, s')) \<and>
             mapped s' = {} \<and> nodes s' = {}))
    \<and> (\<forall>r s'. uart_driver_init dev gpio_ok uart_ok tx_ok rx_ok s = Some (Ok (r, s')) \<longrightarrow> r \<noteq> 0 \<longrightarrow>
          r = - ENOMEM \<and> mapped s' = {} \<and> nodes s' = {})"
proof (intro conjI impI allI)
  assume "gpio_ok \<and> uart_ok \<and> \<not> tx_ok"
  with init_no_tx [of dev rx_ok s] assms
  show "\<exists>s'. uart_driver_init dev gpio_ok uart_ok tx_ok rx_ok s = Some (Ok (- ENOMEM, s')) \<and>
             mapped s' = {} \<and> nodes s' = {}" by auto
next
  assume "gpio_ok \<and> uart_ok \<and> tx_ok \<and> \<not> rx_ok"
  with init_no_rx [of dev s] assms
  show "\<exists>s'. uart_driver_init dev gpio_ok uart_ok tx_ok rx_ok s = Some (Ok (- ENOMEM, s')) \<and>
             mapped s' = {} \<and> nodes s' = {}" by auto
next
  fix r s'
  assume eq: "uart_driver_init dev gpio_ok uart_ok tx_ok rx_ok s = Some (Ok (r, s'))" and r: "r \<noteq> 0"
  have "r = - ENOMEM \<and> mapped s' = {} \<and> nodes s' = {}"
  proof (cases gpio_ok)
    case False
    with eq assms show ?thesis by (auto simp add: init_no_gpio pr_err_def)
  next
    case g: True
    show ?thesis
    proof (cases uart_ok)
      case False
      with g eq assms init_no_uart [of dev tx_ok rx_ok s] show ?thesis by auto
    next
      case u: True
      show ?thesis
      proof (cases tx_ok)
        case False
        with g u eq assms init_no_tx [of dev rx_ok s] show ?thesis by auto
      next
        case t: True
        show ?thesis
        proof (cases rx_ok)
          case False
          with g u t eq assms init_no_rx [of dev s] show ?thesis by auto
        next
          case True
          with g u t eq r init_all_ok [of dev s r s'] show ?thesis by simp
        qed
      qed
    qed
  qed
  then show "r = - ENOMEM" and "mapped s' = {}" and "nodes s' = {}" by simp_all
qed

text \<open>The two failures of the claim, from the untouched state.\<close>

theorem load_failure_rollback_witness:
  "map_option (map_res (\<lambda>(r, s). (r, mapped s, nodes s)))
      (uart_driver_init (\<lambda>n r. 0) True True False True s_init) = Some (Ok (- 12, {}, {}))
   \<and> map_option (map_res (\<lambda>(r, s). (r, mapped s, nodes s)))
      (uart_driver_init (\<lambda>n r. 0) True True True False s_init) = Some (Ok (- 12, {}, {}))"
proof -
  have m: "mapped s_init = {}" and n: "nodes s_init = {}" by (simp_all add: s_init_def)
  from load_failure_rollback [OF m n, where gpio_ok = True and uart_ok = True and tx_ok = False
      and rx_ok = True and dev = "\<lambda>n r. 0"]
  have a: "map_option (map_res (\<lambda>(r, s). (r, mapped s, nodes s)))
      (uart_driver_init (\<lambda>n r. 0) True True False True s_init) = Some (Ok (- 12, {}, {}))"
    by (auto simp add: ENOMEM_def)
  from load_failure_rollback [OF m n, where gpio_ok = True and uart_ok = True and tx_ok = True
      and rx_ok = False and dev = "\<lambda>n r. 0"]
  have "map_option (map_res (\<lambda>(r, s). (r, mapped s, nodes s)))
      (uart_driver_init (\<lambda>n r. 0) True True True False s_init) = Some (Ok (- 12, {}, {}))"
    by (auto simp add: ENOMEM_def)
  with a show ?thesis by simp
qed


subsection \<open>Reception\<close>

lemma rx_line_append: "rx_line (xs @ ys) = rx_line xs @ rx_line ys"
  by (induction xs rule: rx_line.induct) simp_all

lemma rx_step_refl: "rx_step s s"
  by (simp add: rx_step_def)

lemma rx_step_trans: "rx_step s s1 \<Longrightarrow> rx_step s1 s2 \<Longrightarrow> rx_step s s2"
  by (simp add: rx_step_def)

lemma uart_data_available_eq:
  "uart_data_available dev s =
     (dev (nreads s) MU_LSR AND 1,
      s\<lparr>trace := trace s @ [Readl MU_LSR (dev (nreads s) MU_LSR)], nreads := Suc (nreads s)\<rparr>)"
  by (simp add: uart_data_available_def readl_def)

lemma uart_data_available_step:
  "rx_step s (snd (uart_data_available dev s))"
  "rx_line (trace (snd (uart_data_available dev s))) = rx_line (trace s)"
  by (simp_all add: uart_data_available_eq rx_step_def rx_line_append)

lemma ucast_and_ff: "(ucast ((v::u32) AND 0xFF) :: u8) = ucast v"
proof -
  have m: "(0xFF :: u32) = mask 8" by (simp add: mask_eq_exp_minus_1)
  show ?thesis unfolding m by (rule bit_word_eqI) (auto simp add: bit_simps)
qed

lemma uart_receive_char_step:
  assumes "uart_receive_char dev s = (c, s')"
  shows "rx_step s s'"
    and "filter (\<lambda>c. c \<noteq> 0) (rx_line (trace s')) =
         filter (\<lambda>c. c \<noteq> 0) (rx_line (trace s)) @ (if c \<noteq> 0 then [c] else [])"
  using assms
  by (auto simp add: uart_receive_char_def uart_data_available_eq readl_def rx_step_def
      rx_line_append ucast_and_ff split: if_splits)

lemma rx_idle_check_step:
  assumes "rx_idle_check dev i q s = (brk, q', s')"
  shows "rx_step s s'" and "rx_line (trace s') = rx_line (trace s)"
  using assms
  by (auto simp add: rx_idle_check_def uart_data_available_eq udelay_def rx_step_def
      rx_line_append Let_def split: if_splits)

lemma rx_inv_store:
  assumes "rx_inv count base kbuf i s" "i < KBUF_SIZE - 1" "i < count"
    "filter (\<lambda>c. c \<noteq> 0) (rx_line (trace s')) = filter (\<lambda>c. c \<noteq> 0) (rx_line (trace s)) @ [c]"
  shows "rx_inv count base (kbuf[i := c]) (i + 1) s'" and "i < length kbuf"
proof -
  from assms(1,2) show l: "i < length kbuf" by (simp add: rx_inv_def)
  then have "take (i + 1) (kbuf[i := c]) = take i kbuf @ [c]"
    by (simp add: take_Suc_conv_app_nth)
  with assms show "rx_inv count base (kbuf[i := c]) (i + 1) s'"
    by (simp add: rx_inv_def)
qed

lemma rx_fifo_loop_inv:
  assumes "rx_fifo_loop dev count kbuf i q s = Some r"
  shows "rx_inv count base kbuf i s \<longrightarrow>
    (\<exists>kbuf' i' q' s'. r = Ok (kbuf', i', q', s') \<and> rx_inv count base kbuf' i' s' \<and> rx_step s s')"
proof (rule rx_fifo_loop.raw_induct [where P = "\<lambda>dev count kbuf i q s r.
    rx_inv count base kbuf i s \<longrightarrow>
    (\<exists>kbuf' i' q' s'. r = Ok (kbuf', i', q', s') \<and> rx_inv count base kbuf' i' s' \<and> rx_step s s')",
    OF _ assms], goal_cases)
  case (1 loop dev count kbuf i q s r)
  note IH = 1(1) and body = 1(2)
  show ?case
  proof
    assume inv: "rx_inv count base kbuf i s"
    obtain a s1 where a: "uart_data_available dev s = (a, s1)" by fastforce
    with uart_data_available_step [where s = s and dev = dev] have
      st1: "rx_step s s1" and l1: "rx_line (trace s1) = rx_line (trace s)" by simp_all
    from inv l1 have inv1: "rx_inv count base kbuf i s1" by (simp add: rx_inv_def)
    show "\<exists>kbuf' i' q' s'. r = Ok (kbuf', i', q', s') \<and> rx_inv count base kbuf' i' s' \<and> rx_step s s'"
    proof (cases "a \<noteq> 0 \<and> i < KBUF_SIZE - 1 \<and> i < count")
      case False
      with body a have "r = Ok (kbuf, i, q, s1)" by auto
      with inv1 st1 show ?thesis by simp
    next
      case go: True
      obtain c s2 where c: "uart_receive_char dev s1 = (c, s2)" by fastforce
      note rc = uart_receive_char_step [OF c]
      from st1 rc(1) have st2: "rx_step s s2" by (rule rx_step_trans)
      show ?thesis
      proof (cases "c = 0")
        case True
        with body a go c have "loop dev count kbuf i q s2 = Some r" by simp
        moreover from inv1 rc(2) True have "rx_inv count base kbuf i s2" by (simp add: rx_inv_def)
        ultimately obtain kbuf' i' q' s' where
          "r = Ok (kbuf', i', q', s')" "rx_inv count base kbuf' i' s'" "rx_step s2 s'"
          using IH by blast
        with st2 show ?thesis by (blast intro: rx_step_trans)
      next
        case False
        with rc(2) have "filter (\<lambda>c. c \<noteq> 0) (rx_line (trace s2)) =
            filter (\<lambda>c. c \<noteq> 0) (rx_line (trace s1)) @ [c]" by simp
        from rx_inv_store [OF inv1 _ _ this] go have
          inv2: "rx_inv count base (kbuf[i := c]) (i + 1) s2" and l: "i < length kbuf" by simp_all
        from body a go c False l have "loop dev count (kbuf[i := c]) (i + 1) 0 s2 = Some r" by simp
        with inv2 obtain kbuf' i' q' s' where
          "r = Ok (kbuf', i', q', s')" "rx_inv count base kbuf' i' s'" "rx_step s2 s'"
          using IH by blast
        with st2 show ?thesis by (blast intro: rx_step_trans)
      qed
    qed
  qed
qed

lemma rx_drain_inv:
  assumes "rx_drain dev count kbuf i q s = Some r"
  shows "rx_inv count base kbuf i s \<longrightarrow>
    (\<exists>kbuf' i' s'. r = Ok (kbuf', i', s') \<and> rx_inv count base kbuf' i' s' \<and> rx_step s s')"
proof (rule rx_drain.raw_induct [where P = "\<lambda>dev count kbuf i q s r.
    rx_inv count base kbuf i s \<longrightarrow>
    (\<exists>kbuf' i' s'. r = Ok (kbuf', i', s') \<and> rx_inv count base kbuf' i' s' \<and> rx_step s s')",
    OF _ assms], goal_cases)
  case (1 drain dev count kbuf i q s r)
  note IH = 1(1) and body = 1(2)
  show ?case
  proof
    assume inv: "rx_inv count base kbuf i s"
    show "\<exists>kbuf' i' s'. r = Ok (kbuf', i', s') \<and> rx_inv count base kbuf' i' s' \<and> rx_step s s'"
    proof (cases "i < KBUF_SIZE - 1 \<and> i < count")
      case False
      with body have "r = Ok (kbuf, i, s)" by auto
      with inv show ?thesis by (simp add: rx_step_refl)
    next
      case go: True
      with body obtain r1 where r1: "rx_fifo_loop dev count kbuf i q s = Some r1"
        by (auto split: option.splits)
      from rx_fifo_loop_inv [OF r1, of base] inv obtain kbuf1 i1 q1 s1 where
        ok1: "r1 = Ok (kbuf1, i1, q1, s1)" and inv1: "rx_inv count base kbuf1 i1 s1"
        and st1: "rx_step s s1" by blast
      obtain brk q2 s2 where chk: "rx_idle_check dev i1 q1 s1 = (brk, q2, s2)"
        by (metis prod_cases3)
      note ic = rx_idle_check_step [OF chk]
      from inv1 ic(2) have inv2: "rx_inv count base kbuf1 i1 s2" by (simp add: rx_inv_def)
      from st1 ic(1) have st2: "rx_step s s2" by (rule rx_step_trans)
      show ?thesis
      proof (cases brk)
        case True
        with body go r1 ok1 chk have "r = Ok (kbuf1, i1, s2)" by simp
        with inv2 st2 show ?thesis by simp
      next
        case False
        with body go r1 ok1 chk have "drain dev count kbuf1 i1 q2 s2 = Some r" by simp
        with inv2 obtain kbuf' i' s' where
          "r = Ok (kbuf', i', s')" "rx_inv count base kbuf' i' s'" "rx_step s2 s'"
          using IH by blast
        with st2 show ?thesis by (blast intro: rx_step_trans)
      qed
    qed
  qed
qed

lemma first_byte_wait_timeout_iff:
  "0 \<le> t \<Longrightarrow>
   fst (first_byte_wait dev t s) \<le> 0 \<longleftrightarrow> (\<forall>j<nat t. dev (nreads s + j) MU_LSR AND 1 = 0)"
proof (induction dev t s rule: first_byte_wait.induct)
  case (1 dev timeout s)
  let ?s1 = "snd (uart_data_available dev s)"
  show ?case
  proof (cases "dev (nreads s) MU_LSR AND 1 = 0")
    case False
    then have "first_byte_wait dev timeout s = (timeout, ?s1)"
      by (subst first_byte_wait.simps) (simp add: uart_data_available_eq)
    moreover have "timeout \<le> 0 \<longleftrightarrow> (\<forall>j<nat timeout. dev (nreads s + j) MU_LSR AND 1 = 0)"
    proof (cases "timeout = 0")
      case True then show ?thesis by simp
    next
      case F: False
      with "1.prems" have "0 < nat timeout" by simp
      with False have "\<not> (\<forall>j<nat timeout. dev (nreads s + j) MU_LSR AND 1 = 0)"
        by (metis add.right_neutral)
      with F "1.prems" show ?thesis by simp
    qed
    ultimately show ?thesis by simp
  next
    case True
    show ?thesis
    proof (cases "timeout > 0")
      case False
      with True have "first_byte_wait dev timeout s = (timeout - 1, ?s1)"
        by (subst first_byte_wait.simps) (simp add: uart_data_available_eq)
      with False "1.prems" show ?thesis by simp
    next
      case pos: True
      let ?s2 = "udelay 1000 ?s1"
      have eq: "first_byte_wait dev timeout s = first_byte_wait dev (timeout - 1) ?s2"
        using True pos by (subst first_byte_wait.simps) (simp add: uart_data_available_eq)
      have n2: "nreads ?s2 = Suc (nreads s)" by (simp add: uart_data_available_eq udelay_def)
      have "fst (first_byte_wait dev (timeout - 1) ?s2) \<le> 0 \<longleftrightarrow>
          (\<forall>j<nat (timeout - 1). dev (nreads ?s2 + j) MU_LSR AND 1 = 0)"
        using pos True by (intro "1.IH" [of "dev (nreads s) MU_LSR AND 1" ?s1])
          (simp_all add: uart_data_available_eq)
      also have "\<dots> \<longleftrightarrow> (\<forall>j<nat timeout. dev (nreads s + j) MU_LSR AND 1 = 0)"
      proof
        assume a: "\<forall>j<nat (timeout - 1). dev (nreads ?s2 + j) MU_LSR AND 1 = 0"
        show "\<forall>j<nat timeout. dev (nreads s + j) MU_LSR AND 1 = 0"
        proof (intro allI impI)
          fix j assume j: "j < nat timeout"
          show "dev (nreads s + j) MU_LSR AND 1 = 0"
          proof (cases j)
            case 0 with True show ?thesis by simp
          next
            case (Suc k)
            with j pos have "k < nat (timeout - 1)" by linarith
            with a have "dev (nreads ?s2 + k) MU_LSR AND 1 = 0" by blast
            with Suc n2 show ?thesis by simp
          qed
        qed
      next
        assume a: "\<forall>j<nat timeout. dev (nreads s + j) MU_LSR AND 1 = 0"
        show "\<forall>j<nat (timeout - 1). dev (nreads ?s2 + j) MU_LSR AND 1 = 0"
        proof (intro allI impI)
          fix j assume "j < nat (timeout - 1)"
          with pos have "Suc j < nat timeout" by linarith
          with a have "dev (nreads s + Suc j) MU_LSR AND 1 = 0" by blast
          with n2 show "dev (nreads ?s2 + j) MU_LSR AND 1 = 0" by simp
        qed
      qed
      finally show ?thesis by (simp add: eq)
    qed
  qed
qed

lemma first_byte_wait_step:
  "rx_step s (snd (first_byte_wait dev t s)) \<and>
   rx_line (trace (snd (first_byte_wait dev t s))) = rx_line (trace s) \<and>
   nreads s < nreads (snd (first_byte_wait dev t s))"
proof (induction dev t s rule: first_byte_wait.induct)
  case (1 dev timeout s)
  obtain a s1 where a: "uart_data_available dev s = (a, s1)" by fastforce
  with uart_data_available_step [where s = s and dev = dev] have
    st1: "rx_step s s1" and l1: "rx_line (trace s1) = rx_line (trace s)" by simp_all
  from a have n1: "nreads s < nreads s1" by (auto simp add: uart_data_available_eq)
  show ?case
  proof (cases "a = 0 \<and> timeout > 0")
    case False
    with a have "snd (first_byte_wait dev timeout s) = s1"
      by (subst first_byte_wait.simps) auto
    with st1 l1 n1 show ?thesis by simp
  next
    case True
    let ?s2 = "udelay 1000 s1"
    from True a have eq: "first_byte_wait dev timeout s = first_byte_wait dev (timeout - 1) ?s2"
      by (subst first_byte_wait.simps) simp
    have st2: "rx_step s1 ?s2" "rx_line (trace ?s2) = rx_line (trace s1)" "nreads ?s2 = nreads s1"
      by (simp_all add: udelay_def rx_step_def rx_line_append)
    from "1.IH" [OF a [symmetric]] True have
      "rx_step ?s2 (snd (first_byte_wait dev (timeout - 1) ?s2)) \<and>
       rx_line (trace (snd (first_byte_wait dev (timeout - 1) ?s2))) = rx_line (trace ?s2) \<and>
       nreads ?s2 < nreads (snd (first_byte_wait dev (timeout - 1) ?s2))" by simp
    with st1 st2 l1 n1 show ?thesis
      unfolding eq by (auto intro: rx_step_trans)
  qed
qed

lemma rx_finish_result:
  assumes inv: "rx_inv count base kbuf i s"
  shows "\<exists>ret out ppos' s'. rx_finish ubuf kbuf i ppos s = Ok (ret, out, ppos', s') \<and>
      trace s' = trace s \<and> mapped s' = mapped s \<and> nodes s' = nodes s \<and> nreads s' = nreads s \<and>
      ((ret = 0 \<and> out = [] \<and> ppos' = ppos \<and> i = 0)
       \<or> (ret = - EFAULT \<and> out = take ubuf kbuf \<and> ppos' = ppos \<and> 0 < i \<and> ubuf < i)
       \<or> (ret = int i \<and> out = take i kbuf \<and> ppos' = ppos + int i \<and> 0 < i \<and> i \<le> ubuf))"
proof -
  from inv have l: "i < length kbuf" by (simp add: rx_inv_def KBUF_SIZE_def)
  show ?thesis
  proof (cases "i = 0")
    case True
    then show ?thesis by (simp add: rx_finish_def)
  next
    case pos: False
    show ?thesis
    proof (cases "i \<le> ubuf")
      case True
      then have "copy_to_user ubuf (kbuf[i := 0]) i = (0, take i kbuf)"
        by (simp add: copy_to_user_def)
      with pos l True show ?thesis by (simp add: rx_finish_def pr_info_def)
    next
      case False
      then have "copy_to_user ubuf (kbuf[i := 0]) i = (i - ubuf, take ubuf kbuf)"
        by (simp add: copy_to_user_def)
      with pos l False show ?thesis by (simp add: rx_finish_def)
    qed
  qed
qed

lemma uart_proc_read_result:
  assumes "uart_proc_read dev stack ubuf count ppos s = Some r"
  shows "\<exists>ret out ppos' s'. r = Ok (ret, out, ppos', s') \<and> rx_step s s' \<and>
    ((ret = 0 \<and> out = [] \<and> ppos' = ppos \<and>
        filter (\<lambda>c. c \<noteq> 0) (rx_line (trace s')) = filter (\<lambda>c. c \<noteq> 0) (rx_line (trace s)))
     \<or> (ret = - EFAULT \<and> ppos' = ppos \<and> ppos \<le> 0 \<and> length out = ubuf \<and>
        (\<exists>lost. lost \<noteq> [] \<and> length (out @ lost) \<le> min 255 (unat count) \<and>
           filter (\<lambda>c. c \<noteq> 0) (rx_line (trace s')) =
             filter (\<lambda>c. c \<noteq> 0) (rx_line (trace s)) @ out @ lost))
     \<or> (0 < ret \<and> ppos \<le> 0 \<and> ret \<le> int (min 255 (unat count)) \<and> ppos' = ppos + ret \<and>
        length out = nat ret \<and> nat ret \<le> ubuf \<and>
        filter (\<lambda>c. c \<noteq> 0) (rx_line (trace s')) = filter (\<lambda>c. c \<noteq> 0) (rx_line (trace s)) @ out))"
proof (cases "ppos > 0")
  case True
  with assms have "r = Ok (0, [], ppos, s)" by (simp add: uart_proc_read_def)
  then show ?thesis by (simp add: rx_step_refl)
next
  case gate: False
  obtain t s1 where w: "first_byte_wait dev 1000 s = (t, s1)" by fastforce
  with first_byte_wait_step [of s dev 1000] have
    st1: "rx_step s s1" and l1: "rx_line (trace s1) = rx_line (trace s)" by simp_all
  show ?thesis
  proof (cases "t \<le> 0")
    case True
    with assms gate w have "r = Ok (0, [], ppos, s1)" by (simp add: uart_proc_read_def)
    with st1 l1 show ?thesis by simp
  next
    case False
    with assms gate w have c: "rx_collect dev stack ubuf count ppos s1 = Some r"
      by (simp add: uart_proc_read_def)
    let ?base = "filter (\<lambda>c. c \<noteq> 0) (rx_line (trace s))"
    from c obtain rd where rd: "rx_drain dev (unat count) (kbuf_init stack) 0 0 s1 = Some rd"
      by (auto simp add: rx_collect_def split: option.splits)
    have "rx_inv (unat count) ?base (kbuf_init stack) 0 s1"
      by (simp add: rx_inv_def kbuf_init_def l1)
    with rx_drain_inv [OF rd, of ?base] obtain kbuf i s2 where
      ok: "rd = Ok (kbuf, i, s2)" and inv: "rx_inv (unat count) ?base kbuf i s2"
      and st2: "rx_step s1 s2" by blast
    from c rd ok have r: "r = rx_finish ubuf kbuf i ppos s2" by (simp add: rx_collect_def)
    from rx_finish_result [OF inv, of ubuf ppos] obtain ret out ppos' s' where
      f: "rx_finish ubuf kbuf i ppos s2 = Ok (ret, out, ppos', s')"
      and fr: "trace s' = trace s2" "mapped s' = mapped s2" "nodes s' = nodes s2" "nreads s' = nreads s2"
      and cs: "(ret = 0 \<and> out = [] \<and> ppos' = ppos \<and> i = 0)
       \<or> (ret = - EFAULT \<and> out = take ubuf kbuf \<and> ppos' = ppos \<and> 0 < i \<and> ubuf < i)
       \<or> (ret = int i \<and> out = take i kbuf \<and> ppos' = ppos + int i \<and> 0 < i \<and> i \<le> ubuf)"
      by blast
    from st1 st2 have "rx_step s s2" by (rule rx_step_trans)
    with fr have st: "rx_step s s'" by (simp add: rx_step_def)
    from inv fr have line: "filter (\<lambda>c. c \<noteq> 0) (rx_line (trace s')) = ?base @ take i kbuf"
      and len: "length (take i kbuf) = i" and bound: "i \<le> 255" "i \<le> unat count"
      by (simp_all add: rx_inv_def KBUF_SIZE_def)
    from cs consider
      (none) "ret = 0" "out = []" "ppos' = ppos" "i = 0"
      | (fault) "ret = - EFAULT" "out = take ubuf kbuf" "ppos' = ppos" "0 < i" "ubuf < i"
      | (data) "ret = int i" "out = take i kbuf" "ppos' = ppos + int i" "0 < i" "i \<le> ubuf"
      by blast
    then show ?thesis
    proof cases
      case none
      with r f st line show ?thesis by simp
    next
      case fault
      have pre: "take ubuf (take i kbuf) = take ubuf kbuf"
        using fault(5) by (simp add: min_def)
      have "take ubuf (take i kbuf) @ drop ubuf (take i kbuf) = take i kbuf"
        by (rule append_take_drop_id)
      then have "out @ drop ubuf (take i kbuf) = take i kbuf"
        by (simp only: pre fault(2))
      moreover have "drop ubuf (take i kbuf) \<noteq> []"
        using fault(5) len by simp
      ultimately obtain lost where sp: "out @ lost = take i kbuf" and ne: "lost \<noteq> []"
        by blast
      from sp len have "length (out @ lost) = i" by (simp only:)
      with bound have b: "length (out @ lost) \<le> min 255 (unat count)" by simp
      from line sp have
        l: "filter (\<lambda>c. c \<noteq> 0) (rx_line (trace s')) = ?base @ out @ lost" by (simp only:)
      from fault(5) len have "length (take ubuf (take i kbuf)) = ubuf" by simp
      then have lo: "length out = ubuf" by (simp only: pre fault(2))
      from ne b l have "\<exists>lost. lost \<noteq> [] \<and> length (out @ lost) \<le> min 255 (unat count) \<and>
           filter (\<lambda>c. c \<noteq> 0) (rx_line (trace s')) = ?base @ out @ lost" by blast
      with r f st fault(1,3) gate lo show ?thesis by simp
    next
      case data
      with r f st line len bound gate show ?thesis by simp
    qed
  qed
qed

lemma first_byte_wait_timeout_trace:
  "0 \<le> t \<Longrightarrow> \<forall>j<nat t. dev (nreads s + j) MU_LSR AND 1 = 0 \<Longrightarrow>
   trace (snd (first_byte_wait dev t s)) = trace s @
     concat (map (\<lambda>j. [Readl MU_LSR (dev (nreads s + j) MU_LSR), Udelay 1000]) [0..<nat t]) @
     [Readl MU_LSR (dev (nreads s + nat t) MU_LSR)]"
proof (induction dev t s rule: first_byte_wait.induct)
  case (1 dev timeout s)
  let ?s1 = "snd (uart_data_available dev s)"
  show ?case
  proof (cases "timeout > 0")
    case False
    with "1.prems" have z: "timeout = 0" by simp
    have "snd (first_byte_wait dev timeout s) = ?s1"
      unfolding z by (subst first_byte_wait.simps) (simp add: uart_data_available_eq)
    then show ?thesis by (simp add: z uart_data_available_eq)
  next
    case pos: True
    then have n: "nat timeout = Suc (nat (timeout - 1))" by simp
    from "1.prems"(2) pos have a0: "dev (nreads s) MU_LSR AND 1 = 0"
      by (metis add.right_neutral zero_less_nat_eq)
    let ?s2 = "udelay 1000 ?s1"
    have eq: "first_byte_wait dev timeout s = first_byte_wait dev (timeout - 1) ?s2"
      using a0 pos by (subst first_byte_wait.simps) (simp add: uart_data_available_eq)
    have n2: "nreads ?s2 = Suc (nreads s)"
      and t2: "trace ?s2 = trace s @ [Readl MU_LSR (dev (nreads s) MU_LSR), Udelay 1000]"
      by (simp_all add: uart_data_available_eq udelay_def)
    have rest: "\<forall>j<nat (timeout - 1). dev (nreads ?s2 + j) MU_LSR AND 1 = 0"
    proof (intro allI impI)
      fix j assume "j < nat (timeout - 1)"
      with n have "Suc j < nat timeout" by simp
      with "1.prems"(2) have "dev (nreads s + Suc j) MU_LSR AND 1 = 0" by blast
      then show "dev (nreads ?s2 + j) MU_LSR AND 1 = 0" by (simp add: n2)
    qed
    have "trace (snd (first_byte_wait dev (timeout - 1) ?s2)) = trace ?s2 @
       concat (map (\<lambda>j. [Readl MU_LSR (dev (nreads ?s2 + j) MU_LSR), Udelay 1000]) [0..<nat (timeout - 1)]) @
       [Readl MU_LSR (dev (nreads ?s2 + nat (timeout - 1)) MU_LSR)]"
      using pos a0 rest
      by (intro "1.IH" [of "dev (nreads s) MU_LSR AND 1" ?s1])
        (simp_all add: uart_data_available_eq)
    moreover have "[0..<nat timeout] = 0 # map Suc [0..<nat (timeout - 1)]"
      unfolding n by (simp add: upt_conv_Cons map_Suc_upt del: upt_Suc)
    ultimately show ?thesis
      unfolding eq by (simp add: n2 t2 o_def n)
  qed
qed

lemma uart_proc_read_wait:
  "uart_proc_read dev stack ubuf count 0 s =
      (if \<forall>j<1000. dev (nreads s + j) MU_LSR AND 1 = 0
       then Some (Ok (0, [], 0, snd (first_byte_wait dev 1000 s)))
       else rx_collect dev stack ubuf count 0 (snd (first_byte_wait dev 1000 s)))"
proof -
  define quiet where "quiet \<longleftrightarrow> (\<forall>j<1000. dev (nreads s + j) MU_LSR AND 1 = 0)"
  obtain t s1 where w: "first_byte_wait dev 1000 s = (t, s1)" by fastforce
  with first_byte_wait_timeout_iff [of 1000 dev s]
  have "t \<le> 0 \<longleftrightarrow> quiet" by (simp add: quiet_def)
  with w have "uart_proc_read dev stack ubuf count 0 s =
      (if quiet then Some (Ok (0, [], 0, snd (first_byte_wait dev 1000 s)))
       else rx_collect dev stack ubuf count 0 (snd (first_byte_wait dev 1000 s)))"
    by (simp add: uart_proc_read_def)
  then show ?thesis unfolding quiet_def .
qed

text \<open>
  Claim C3. A read entered with cursor 0 polls the status register, with a sleep of 1 ms
  after each poll that shows no data. The wait ends with \<^verbatim>\<open>timeout <= 0\<close>, and the handler
  returns 0 there, exactly when bit 0 is clear in each of the first 1000 polls; when one of
  these polls shows data, the handler goes on with the drain loop. In the first case the
  trace shows the 1000 polls, each followed by \<^verbatim>\<open>udelay(1000)\<close>, and one further poll
  after the last sleep, whose outcome changes nothing.
\<close>

theorem first_byte_wait_window:
  "(fst (first_byte_wait dev 1000 s) \<le> 0 \<longleftrightarrow> (\<forall>j<1000. dev (nreads s + j) MU_LSR AND 1 = 0))
   \<and> uart_proc_read dev stack ubuf count 0 s =
      (if \<forall>j<1000. dev (nreads s + j) MU_LSR AND 1 = 0
       then Some (Ok (0, [], 0, snd (first_byte_wait dev 1000 s)))
       else rx_collect dev stack ubuf count 0 (snd (first_byte_wait dev 1000 s)))
   \<and> ((\<forall>j<1000. dev (nreads s + j) MU_LSR AND 1 = 0) \<longrightarrow>
       trace (snd (first_byte_wait dev 1000 s)) = trace s @
         concat (map (\<lambda>j. [Readl MU_LSR (dev (nreads s + j) MU_LSR), Udelay 1000]) [0..<1000]) @
         [Readl MU_LSR (dev (nreads s + 1000) MU_LSR)])"
  using first_byte_wait_timeout_iff [of 1000 dev s] uart_proc_read_wait [of dev stack ubuf count s]
    first_byte_wait_timeout_trace [of 1000 dev s]
  by simp

text \<open>A line that stays silent, and a line that has data at the first poll.\<close>

theorem first_byte_wait_window_witness:
  "uart_proc_read (\<lambda>n r. 0) (\<lambda>i. 0) 0 0 0 s_init =
     Some (Ok (0, [], 0, snd (first_byte_wait (\<lambda>n r. 0) 1000 s_init)))
   \<and> uart_proc_read (\<lambda>n r. 1) (\<lambda>i. 0) 0 0 0 s_init =
     rx_collect (\<lambda>n r. 1) (\<lambda>i. 0) 0 0 0 (snd (first_byte_wait (\<lambda>n r. 1) 1000 s_init))"
proof -
  have "\<not> (\<forall>j<1000::nat. (\<lambda>n r. 1 :: u32) (nreads s_init + j) MU_LSR AND 1 = 0)"
    by (auto intro: exI [of _ 0])
  moreover have "\<forall>j<1000::nat. (\<lambda>n r. 0 :: u32) (nreads s_init + j) MU_LSR AND 1 = 0"
    by simp
  ultimately show ?thesis
    using first_byte_wait_window [of "\<lambda>n r. 1" s_init "\<lambda>i. 0" 0 0]
      first_byte_wait_window [of "\<lambda>n r. 0" s_init "\<lambda>i. 0" 0 0]
    by (simp only: if_True if_False) simp
qed

lemma kbuf_init_head:
  "kbuf_init stack = stack 0 # stack 1 # stack 2 # map stack [3..<256]"
proof -
  have "[0..<256::nat] = 0 # [Suc 0..<256]" by (rule upt_conv_Cons) simp
  moreover have "[Suc 0..<256::nat] = Suc 0 # [Suc (Suc 0)..<256]" by (rule upt_conv_Cons) simp
  moreover have "[Suc (Suc 0)..<256::nat] = Suc (Suc 0) # [Suc (Suc (Suc 0))..<256]"
    by (rule upt_conv_Cons) simp
  moreover have "Suc 0 = 1" "Suc (Suc 0) = 2" "Suc (Suc (Suc 0)) = 3" by simp_all
  ultimately show ?thesis by (simp only: kbuf_init_def KBUF_SIZE_def list.map)
qed

lemmas rx_eval =
  uart_proc_read_def rx_collect_def rx_finish_def rx_drain.simps rx_fifo_loop.simps
  rx_idle_check_def uart_receive_char_def uart_data_available_def readl_def udelay_def
  first_byte_wait.simps s_init_def kbuf_init_head KBUF_SIZE_def copy_to_user_def
  MAX_CONSECUTIVE_NO_DATA_def pr_info_def

text \<open>
  Claim C4. Whenever \<^verbatim>\<open>uart_proc_read\<close> returns, no store has left \<^verbatim>\<open>kbuf\<close> (the
  result is never \<open>Overrun\<close>: the bytes go to indices below 255 and the terminator to
  index \<open>i \<le> 255\<close>), the returned count is at most \<open>min 255 count\<close>, and the bytes that
  reach the caller are exactly the bytes other than 0 that the call has read from
  \<^verbatim>\<open>MU_IO\<close>, in their order, as many as the returned count; the terminator is not among
  them. On every path, the failing copy included, the call collects at most
  \<open>min 255 count\<close> bytes. A store outside the array would end the run with \<open>Overrun\<close>
  at once, so the statement about the stores also covers a run that goes on for ever.
\<close>

theorem read_bounded_by_capacity:
  assumes "uart_proc_read dev stack ubuf count ppos s = Some r"
  shows "\<exists>ret out ppos' s'. r = Ok (ret, out, ppos', s') \<and>
     ret \<le> int (min 255 (unat count)) \<and> length out \<le> min 255 (unat count) \<and> 0 \<notin> set out \<and>
     (0 \<le> ret \<longrightarrow> length out = nat ret \<and>
        filter (\<lambda>c. c \<noteq> 0) (rx_line (trace s')) = filter (\<lambda>c. c \<noteq> 0) (rx_line (trace s)) @ out) \<and>
     length (filter (\<lambda>c. c \<noteq> 0) (rx_line (trace s')))
       \<le> length (filter (\<lambda>c. c \<noteq> 0) (rx_line (trace s))) + min 255 (unat count)"
proof -
  from uart_proc_read_result [OF assms] obtain ret out ppos' s' where
    r: "r = Ok (ret, out, ppos', s')" and
    cs: "(ret = 0 \<and> out = [] \<and> ppos' = ppos \<and>
        filter (\<lambda>c. c \<noteq> 0) (rx_line (trace s')) = filter (\<lambda>c. c \<noteq> 0) (rx_line (trace s)))
     \<or> (ret = - EFAULT \<and> ppos' = ppos \<and> ppos \<le> 0 \<and> length out = ubuf \<and>
        (\<exists>lost. lost \<noteq> [] \<and> length (out @ lost) \<le> min 255 (unat count) \<and>
           filter (\<lambda>c. c \<noteq> 0) (rx_line (trace s')) =
             filter (\<lambda>c. c \<noteq> 0) (rx_line (trace s)) @ out @ lost))
     \<or> (0 < ret \<and> ppos \<le> 0 \<and> ret \<le> int (min 255 (unat count)) \<and> ppos' = ppos + ret \<and>
        length out = nat ret \<and> nat ret \<le> ubuf \<and>
        filter (\<lambda>c. c \<noteq> 0) (rx_line (trace s')) = filter (\<lambda>c. c \<noteq> 0) (rx_line (trace s)) @ out)"
    by blast
  from cs consider
    (none) "ret = 0" "out = []"
      "filter (\<lambda>c. c \<noteq> 0) (rx_line (trace s')) = filter (\<lambda>c. c \<noteq> 0) (rx_line (trace s))"
    | (fault) lost where "ret = - EFAULT" "length (out @ lost) \<le> min 255 (unat count)"
      "filter (\<lambda>c. c \<noteq> 0) (rx_line (trace s')) =
         filter (\<lambda>c. c \<noteq> 0) (rx_line (trace s)) @ out @ lost"
    | (data) "0 < ret" "ret \<le> int (min 255 (unat count))" "length out = nat ret"
      "filter (\<lambda>c. c \<noteq> 0) (rx_line (trace s')) = filter (\<lambda>c. c \<noteq> 0) (rx_line (trace s)) @ out"
    by blast
  then show ?thesis
  proof cases
    case none
    with r show ?thesis by simp
  next
    case fault
    from fault(3) have "set out \<subseteq> set (filter (\<lambda>c. c \<noteq> 0) (rx_line (trace s')))" by auto
    then have z: "0 \<notin> set out" by auto
    from fault(2) have l: "length out \<le> min 255 (unat count)" by simp
    from fault(2,3) have "length (filter (\<lambda>c. c \<noteq> 0) (rx_line (trace s')))
       \<le> length (filter (\<lambda>c. c \<noteq> 0) (rx_line (trace s))) + min 255 (unat count)" by simp
    with r fault(1) z l show ?thesis by (simp add: EFAULT_def)
  next
    case data
    from data(4) have "set out \<subseteq> set (filter (\<lambda>c. c \<noteq> 0) (rx_line (trace s')))" by simp
    then have "0 \<notin> set out" by auto
    moreover from data(2,3) have "length out \<le> min 255 (unat count)" by linarith
    ultimately show ?thesis using r data by simp
  qed
qed

lemma read_two_bytes:
  "map_option (map_res (\<lambda>(r, out, p, s). (r, out, p, rx_line (trace s))))
     (uart_proc_read (\<lambda>n r. if r = MU_LSR then 1 else 0x41) (\<lambda>i. 0) 2 2 0 s_init)
   = Some (Ok (2, [0x41, 0x41], 2, [0x41, 0x41]))"
  by (simp add: rx_eval)

text \<open>A line that always has the byte \<^verbatim>\<open>A\<close> ready, read with a capacity of 2.\<close>

theorem read_bounded_by_capacity_witness:
  "\<exists>ret out ppos' s'.
     uart_proc_read (\<lambda>n r. if r = MU_LSR then 1 else 0x41) (\<lambda>i. 0) 2 2 0 s_init
       = Some (Ok (ret, out, ppos', s')) \<and>
     ret = 2 \<and> out = [0x41, 0x41] \<and> ret \<le> int (min 255 (unat (2 :: 64 word))) \<and>
     0 \<notin> set out \<and> length out = nat ret \<and>
     filter (\<lambda>c. c \<noteq> 0) (rx_line (trace s')) = filter (\<lambda>c. c \<noteq> 0) (rx_line (trace s_init)) @ out"
proof -
  from read_two_bytes obtain r where
    r: "uart_proc_read (\<lambda>n r. if r = MU_LSR then 1 else 0x41) (\<lambda>i. 0) 2 2 0 s_init = Some r"
    and p: "map_res (\<lambda>(r, out, p, s). (r, out, p, rx_line (trace s))) r = Ok (2, [0x41, 0x41], 2, [0x41, 0x41])"
    by auto
  from read_bounded_by_capacity [OF r] obtain ret out ppos' s' where
    "r = Ok (ret, out, ppos', s')" "ret \<le> int (min 255 (unat (2 :: 64 word)))" "0 \<notin> set out"
    "0 \<le> ret \<longrightarrow> length out = nat ret \<and>
        filter (\<lambda>c. c \<noteq> 0) (rx_line (trace s')) = filter (\<lambda>c. c \<noteq> 0) (rx_line (trace s_init)) @ out"
    by blast
  with r p show ?thesis by auto
qed

lemma first_byte_wait_timeout_nreads:
  "0 \<le> t \<Longrightarrow> \<forall>j<nat t. dev (nreads s + j) MU_LSR AND 1 = 0 \<Longrightarrow>
   nreads (snd (first_byte_wait dev t s)) = nreads s + nat t + 1"
proof (induction dev t s rule: first_byte_wait.induct)
  case (1 dev timeout s)
  let ?s1 = "snd (uart_data_available dev s)"
  show ?case
  proof (cases "timeout > 0")
    case False
    with "1.prems" have z: "timeout = 0" by simp
    have "snd (first_byte_wait dev timeout s) = ?s1"
      unfolding z by (subst first_byte_wait.simps) (simp add: uart_data_available_eq)
    then show ?thesis by (simp add: z uart_data_available_eq)
  next
    case pos: True
    then have n: "nat timeout = Suc (nat (timeout - 1))" by simp
    from "1.prems"(2) pos have a0: "dev (nreads s) MU_LSR AND 1 = 0"
      by (metis add.right_neutral zero_less_nat_eq)
    let ?s2 = "udelay 1000 ?s1"
    have eq: "first_byte_wait dev timeout s = first_byte_wait dev (timeout - 1) ?s2"
      using a0 pos by (subst first_byte_wait.simps) (simp add: uart_data_available_eq)
    have n2: "nreads ?s2 = Suc (nreads s)"
      by (simp add: uart_data_available_eq udelay_def)
    have rest: "\<forall>j<nat (timeout - 1). dev (nreads ?s2 + j) MU_LSR AND 1 = 0"
    proof (intro allI impI)
      fix j assume "j < nat (timeout - 1)"
      with n have "Suc j < nat timeout" by simp
      with "1.prems"(2) have "dev (nreads s + Suc j) MU_LSR AND 1 = 0" by blast
      then show "dev (nreads ?s2 + j) MU_LSR AND 1 = 0" by (simp add: n2)
    qed
    have "nreads (snd (first_byte_wait dev (timeout - 1) ?s2)) = nreads ?s2 + nat (timeout - 1) + 1"
      using pos a0 rest
      by (intro "1.IH" [of "dev (nreads s) MU_LSR AND 1" ?s1])
        (simp_all add: uart_data_available_eq)
    then show ?thesis unfolding eq by (simp add: n2 n)
  qed
qed

lemma late_byte_first_read:
  "uart_proc_read late_byte stack 16 1 0 s_init =
     Some (Ok (0, [], 0, snd (first_byte_wait late_byte 1000 s_init)))"
proof -
  have q: "\<forall>j<1000. late_byte (nreads s_init + j) MU_LSR AND 1 = 0"
    by (simp add: late_byte_def s_init_def)
  show ?thesis by (subst uart_proc_read_wait) (rule if_P [OF q])
qed

lemma late_byte_nreads: "nreads (snd (first_byte_wait late_byte 1000 s_init)) = 1001"
proof -
  have "\<forall>j<nat 1000. late_byte (nreads s_init + j) MU_LSR AND 1 = 0"
    by (simp add: late_byte_def s_init_def)
  with first_byte_wait_timeout_nreads [of 1000 late_byte s_init] show ?thesis
    by (simp add: s_init_def)
qed

lemma late_byte_second_read:
  assumes "nreads s = 1001"
  shows "map_option (map_res (\<lambda>(n, out, p, s'). (n, out)))
     (uart_proc_read late_byte (\<lambda>i. 0) 16 1 0 s) = Some (Ok (1, [0x41]))"
  using assms
  by (simp add: uart_proc_read_def rx_collect_def rx_finish_def rx_drain.simps rx_fifo_loop.simps
  rx_idle_check_def uart_receive_char_def uart_data_available_def readl_def udelay_def
  first_byte_wait.simps kbuf_init_head KBUF_SIZE_def copy_to_user_def
  MAX_CONSECUTIVE_NO_DATA_def pr_info_def late_byte_def)

text \<open>
  Claim C5 fails for a read that returns 0. The line is silent during the first read, which
  is entered with cursor 0: it times out, returns 0 and leaves the cursor at 0. The byte
  \<^verbatim>\<open>A\<close> arrives afterwards, and the next read on the same cursor polls the peripheral and
  returns this byte.
\<close>

theorem read_after_empty_read_polls:
  "(case uart_proc_read late_byte (\<lambda>i. 0) 16 1 0 s_init of
      Some (Ok (n, out, p, s1)) \<Rightarrow>
        n = 0 \<and> p = 0 \<and>
        map_option (map_res (\<lambda>(n2, out2, p2, s2). (n2, out2)))
          (uart_proc_read late_byte (\<lambda>i. 0) 16 1 p s1) = Some (Ok (1, [0x41]))
    | _ \<Rightarrow> False)"
  by (simp only: late_byte_first_read option.case res.case prod.case
      late_byte_second_read [OF late_byte_nreads] simp_thms)

text \<open>
  Claim C5 as amended. A read is entered with a cursor that is not negative and returns
  \<open>n \<ge> 0\<close>. If \<open>n > 0\<close>, or if the cursor was positive already, the next read on the same
  cursor, whatever its buffer and count, returns 0 and leaves the state as it found it:
  it makes no access to the peripheral. If the read was entered with cursor 0 and
  returned 0, the cursor is still 0 and the next read on it starts with the first-byte
  wait: it polls the status register at least once before it returns 0 or goes on to the
  drain loop.
\<close>

theorem next_read_at_same_cursor:
  assumes "0 \<le> ppos" "uart_proc_read dev stack ubuf count ppos s = Some (Ok (n, out, ppos', s'))"
    "0 \<le> n"
  shows "(0 < n \<or> 0 < ppos \<longrightarrow>
      uart_proc_read dev' stack' ubuf' count' ppos' s' = Some (Ok (0, [], ppos', s')))
   \<and> (n = 0 \<and> ppos = 0 \<longrightarrow>
      ppos' = 0 \<and>
      uart_proc_read dev' stack' ubuf' count' ppos' s' =
        (if \<forall>j<1000. dev' (nreads s' + j) MU_LSR AND 1 = 0
         then Some (Ok (0, [], 0, snd (first_byte_wait dev' 1000 s')))
         else rx_collect dev' stack' ubuf' count' 0 (snd (first_byte_wait dev' 1000 s'))) \<and>
      nreads s' < nreads (snd (first_byte_wait dev' 1000 s')))"
proof -
  from uart_proc_read_result [OF assms(2)] assms(3) have
    cs: "(n = 0 \<and> ppos' = ppos) \<or> (0 < n \<and> ppos' = ppos + n)"
    by (auto simp add: EFAULT_def)
  have gate: "uart_proc_read dev' stack' ubuf' count' ppos' s' = Some (Ok (0, [], ppos', s'))"
    if "0 < n \<or> 0 < ppos"
  proof -
    from cs that assms(1) have "0 < ppos'" by auto
    then show ?thesis by (simp add: uart_proc_read_def)
  qed
  have again: "ppos' = 0 \<and>
      uart_proc_read dev' stack' ubuf' count' ppos' s' =
        (if \<forall>j<1000. dev' (nreads s' + j) MU_LSR AND 1 = 0
         then Some (Ok (0, [], 0, snd (first_byte_wait dev' 1000 s')))
         else rx_collect dev' stack' ubuf' count' 0 (snd (first_byte_wait dev' 1000 s'))) \<and>
      nreads s' < nreads (snd (first_byte_wait dev' 1000 s'))"
    if "n = 0 \<and> ppos = 0"
  proof -
    from cs that have p: "ppos' = 0" by auto
    show ?thesis
      unfolding p using first_byte_wait_step [of s' dev' 1000]
      by (simp only: uart_proc_read_wait simp_thms)
  qed
  from gate again show ?thesis by blast
qed

lemma read_two_bytes_state:
  "\<exists>s'. uart_proc_read (\<lambda>n r. if r = MU_LSR then 1 else 0x41) (\<lambda>i. 0) 2 2 0 s_init
       = Some (Ok (2, [0x41, 0x41], 2, s'))"
proof -
  from read_two_bytes obtain r where
    "uart_proc_read (\<lambda>n r. if r = MU_LSR then 1 else 0x41) (\<lambda>i. 0) 2 2 0 s_init = Some r"
    "map_res (\<lambda>(r, out, p, s). (r, out, p, rx_line (trace s))) r = Ok (2, [0x41, 0x41], 2, [0x41, 0x41])"
    by auto
  then show ?thesis by (cases r) auto
qed

lemma read_at_cursor_5:
  "uart_proc_read (\<lambda>n r. if r = MU_LSR then 1 else 0x41) (\<lambda>i. 0) 2 2 5 s_init
     = Some (Ok (0, [], 5, s_init))"
  by (simp add: uart_proc_read_def)

text \<open>
  Two bytes are read at cursor 0, and the read that follows at cursor 2 returns 0; a read
  at cursor 5 returns 0, and so does the read that follows; a read at cursor 0 on a
  silent line returns 0, and the read that follows polls.
\<close>

theorem next_read_at_same_cursor_witness:
  "(\<exists>s'. uart_proc_read (\<lambda>n r. if r = MU_LSR then 1 else 0x41) (\<lambda>i. 0) 2 2 0 s_init
       = Some (Ok (2, [0x41, 0x41], 2, s')) \<and>
     uart_proc_read (\<lambda>n r. if r = MU_LSR then 1 else 0x41) (\<lambda>i. 0) 2 2 2 s'
       = Some (Ok (0, [], 2, s')))
   \<and> uart_proc_read (\<lambda>n r. 0) (\<lambda>i. 0) 7 7 5 s_init = Some (Ok (0, [], 5, s_init))
   \<and> nreads (snd (first_byte_wait late_byte 1000 s_init))
       < nreads (snd (first_byte_wait late_byte 1000 (snd (first_byte_wait late_byte 1000 s_init))))"
proof -
  from read_two_bytes_state obtain s' where
    r: "uart_proc_read (\<lambda>n r. if r = MU_LSR then 1 else 0x41) (\<lambda>i. 0) 2 2 0 s_init
       = Some (Ok (2, [0x41, 0x41], 2, s'))" by blast
  from next_read_at_same_cursor [OF _ r] have
    "uart_proc_read (\<lambda>n r. if r = MU_LSR then 1 else 0x41) (\<lambda>i. 0) 2 2 2 s'
       = Some (Ok (0, [], 2, s'))" by simp
  with r have a: "\<exists>s'. uart_proc_read (\<lambda>n r. if r = MU_LSR then 1 else 0x41) (\<lambda>i. 0) 2 2 0 s_init
       = Some (Ok (2, [0x41, 0x41], 2, s')) \<and>
     uart_proc_read (\<lambda>n r. if r = MU_LSR then 1 else 0x41) (\<lambda>i. 0) 2 2 2 s'
       = Some (Ok (0, [], 2, s'))" by blast
  from next_read_at_same_cursor [OF _ read_at_cursor_5] have
    b: "uart_proc_read (\<lambda>n r. 0) (\<lambda>i. 0) 7 7 5 s_init = Some (Ok (0, [], 5, s_init))" by simp
  from next_read_at_same_cursor [OF _ late_byte_first_read, where dev' = late_byte] have
    c: "nreads (snd (first_byte_wait late_byte 1000 s_init))
       < nreads (snd (first_byte_wait late_byte 1000 (snd (first_byte_wait late_byte 1000 s_init))))"
    by simp
  from a b c show ?thesis by blast
qed









end
